theory Spec2Isabelle
  imports Main "HOL-Library.Word"
begin

section \<open>The environment of \<^verbatim>\<open>shredder.c\<close>\<close>

text \<open>
  The program is a sequence of system calls on one file at a time. Its environment is
  modelled explicitly: a file system (a map from path names to nodes), the offset of the one
  open descriptor of the target file, a log of the calls made, and, for every call whose
  outcome the program cannot predict, a script: the finite list of the outcomes the kernel
  will give, in call order. A call made on an exhausted script fails with \<open>EIO\<close>, so
  every loop of the program consumes its script and the model is total. Every run of the
  program that returns makes finitely many calls and is the model's run on the script of
  exactly these outcomes; a run that never returns (\<open>EINTR\<close> for ever) has no result to
  speak of and is not represented.

  Sizes and offsets are \<open>nat\<close>: \<open>st_size\<close> of a regular file is not negative, \<open>off_t\<close>,
  \<open>size_t\<close> and \<open>ssize_t\<close> have the same width in this build (no
  \<open>_FILE_OFFSET_BITS\<close>), and no value computed from them leaves \<open>0..st_size\<close> or
  \<open>0..CHUNK\<close>, so the casts of the source preserve the value. Return values that can
  be \<open>-1\<close> are \<open>int\<close>. The heap is not modelled: \<open>malloc\<close> and \<open>strdup\<close> give memory
  or \<open>NULL\<close>, as the allocator script says, and \<open>free\<close> has no effect that the program
  can see.
\<close>

type_synonym byte = "8 word"
type_synonym path = string

text \<open>A byte of memory or of a file, with its provenance: content that was there before
  (or was never initialised), a byte delivered by the random source, or a byte cleared by
  \<open>memset\<close>.\<close>

datatype cell = Stale byte | Rnd byte | Zeroed

fun byte_of :: "cell \<Rightarrow> byte" where
  "byte_of (Stale b) = b"
| "byte_of (Rnd b) = b"
| "byte_of Zeroed = 0"

fun is_rnd :: "cell \<Rightarrow> bool" where
  "is_rnd (Rnd b) = True"
| "is_rnd c = False"

datatype errno = EINTR | EIO | ENOENT | ELOOP | EACCES | EBADF | ENOSYS | EXDEV | ENOMEM | ENOSPC | EINVAL

datatype 'a sysres = Fail errno | Ok 'a

datatype node = Reg "cell list" | Dir | Symlink path | CharDev | BlockDev | Fifo | Sock

datatype ftype = S_IFREG | S_IFDIR | S_IFLNK | S_IFCHR | S_IFBLK | S_IFIFO | S_IFSOCK

record stat_t =
  st_mode :: ftype
  st_size :: nat

datatype oflag = O_RDONLY | O_WRONLY | O_TRUNC | O_DIRECTORY

text \<open>The calls whose only outcome is success or an error.\<close>

datatype syscall = SC_malloc | SC_open | SC_open_urandom | SC_open_dir | SC_lseek
  | SC_close | SC_rename | SC_unlink

datatype msg = Perror string | Msg_malloc_failed nat | Msg_skipping path
  | Msg_pass int int path | Msg_random_failed | Msg_final_zero path | Msg_processing path
  | Msg_failed path | Msg_renamed path path | Msg_unlinked path

datatype event = Ev_sys syscall "unit sysres" | Ev_stat path | Ev_open path "oflag list"
  | Ev_alloc nat | Ev_memset nat | Ev_write nat "cell list" | Ev_rename path path
  | Ev_unlink path | Ev_close_urandom | Stderr msg

record world =
  fs :: "path \<Rightarrow> node option"
  fd_pos :: nat
  q_getrandom :: "byte list sysres list"
  q_read :: "byte list sysres list"
  q_write :: "nat sysres list"
  q_sys :: "syscall \<Rightarrow> unit sysres list"
  trace :: "event list"

text \<open>The durability layer, kept apart from the rest of the environment: the scripted
  outcomes of \<open>fdatasync\<close> and \<open>fsync\<close>, and the log of what was asked of it and of
  the warnings printed about it.\<close>

datatype sync_event = Sync_fdatasync "unit sysres" | Sync_fsync "unit sysres"
  | Sync_warning msg

record durability =
  q_fdatasync :: "unit sysres list"
  q_fsync :: "unit sysres list"
  sync_log :: "sync_event list"

definition emit :: "event \<Rightarrow> world \<Rightarrow> world" where
  "emit e w = w\<lparr>trace := trace w @ [e]\<rparr>"

text \<open>\<^verbatim>\<open>if (verbose) fprintf(stderr, ...)\<close> and \<^verbatim>\<open>if (verbose) perror(...)\<close>.\<close>

definition warn :: "bool \<Rightarrow> msg \<Rightarrow> world \<Rightarrow> world" where
  "warn verbose m w = (if verbose then emit (Stderr m) w else w)"

definition sys_simple :: "syscall \<Rightarrow> world \<Rightarrow> unit sysres \<times> world" where
  "sys_simple sc w =
     (case q_sys w sc of
        [] \<Rightarrow> (Fail EIO, emit (Ev_sys sc (Fail EIO)) w)
      | r # rs \<Rightarrow> (r, emit (Ev_sys sc r) (w\<lparr>q_sys := (q_sys w)(sc := rs)\<rparr>)))"

text \<open>\<open>getrandom(p, left, 0)\<close>: an error, or at most \<open>left\<close> of the bytes the kernel
  has ready.\<close>

definition sys_getrandom :: "world \<Rightarrow> nat \<Rightarrow> byte list sysres \<times> world" where
  "sys_getrandom w left =
     (case q_getrandom w of
        [] \<Rightarrow> (Fail EIO, w)
      | r # rs \<Rightarrow>
          (case r of
             Fail e \<Rightarrow> (Fail e, w\<lparr>q_getrandom := rs\<rparr>)
           | Ok bs \<Rightarrow> (Ok (take left bs), w\<lparr>q_getrandom := rs\<rparr>)))"

text \<open>\<open>read(fd, buf + total, n)\<close> on the descriptor of \<^verbatim>\<open>/dev/urandom\<close>.\<close>

definition sys_read :: "world \<Rightarrow> nat \<Rightarrow> byte list sysres \<times> world" where
  "sys_read w n =
     (case q_read w of
        [] \<Rightarrow> (Fail EIO, w)
      | r # rs \<Rightarrow>
          (case r of
             Fail e \<Rightarrow> (Fail e, w\<lparr>q_read := rs\<rparr>)
           | Ok bs \<Rightarrow> (Ok (take n bs), w\<lparr>q_read := rs\<rparr>)))"

text \<open>Storing \<open>d\<close> at position \<open>p\<close> of a buffer or of a file's content; a store that
  ends past the end of a file extends it, as \<open>write\<close> does.\<close>

definition store :: "cell list \<Rightarrow> nat \<Rightarrow> cell list \<Rightarrow> cell list" where
  "store c p d = take p c @ d @ drop (p + length d) c"

text \<open>Path resolution as \<open>stat\<close> and \<open>open\<close> without \<open>O_NOFOLLOW\<close> do it: symbolic
  links are followed, at most 40 deep (Linux).\<close>

fun resolve :: "(path \<Rightarrow> node option) \<Rightarrow> nat \<Rightarrow> path \<Rightarrow> path sysres" where
  "resolve f 0 p =
     (case f p of None \<Rightarrow> Fail ENOENT | Some (Symlink t) \<Rightarrow> Fail ELOOP | Some nd \<Rightarrow> Ok p)"
| "resolve f (Suc n) p =
     (case f p of None \<Rightarrow> Fail ENOENT | Some (Symlink t) \<Rightarrow> resolve f n t | Some nd \<Rightarrow> Ok p)"

fun node_stat :: "node \<Rightarrow> stat_t" where
  "node_stat (Reg c) = \<lparr>st_mode = S_IFREG, st_size = length c\<rparr>"
| "node_stat Dir = \<lparr>st_mode = S_IFDIR, st_size = 0\<rparr>"
| "node_stat (Symlink t) = \<lparr>st_mode = S_IFLNK, st_size = length t\<rparr>"
| "node_stat CharDev = \<lparr>st_mode = S_IFCHR, st_size = 0\<rparr>"
| "node_stat BlockDev = \<lparr>st_mode = S_IFBLK, st_size = 0\<rparr>"
| "node_stat Fifo = \<lparr>st_mode = S_IFIFO, st_size = 0\<rparr>"
| "node_stat Sock = \<lparr>st_mode = S_IFSOCK, st_size = 0\<rparr>"

definition sys_stat :: "world \<Rightarrow> path \<Rightarrow> stat_t sysres \<times> world" where
  "sys_stat w p =
     (case resolve (fs w) 40 p of
        Fail e \<Rightarrow> (Fail e, emit (Ev_stat p) w)
      | Ok rp \<Rightarrow>
          (case fs w rp of
             None \<Rightarrow> (Fail ENOENT, emit (Ev_stat p) w)
           | Some nd \<Rightarrow> (Ok (node_stat nd), emit (Ev_stat p) w)))"

text \<open>\<open>open(path, flags)\<close> of the target. The descriptor is the resolved path (the node
  the descriptor refers to); its offset starts at 0; the content is cut only under
  \<open>O_TRUNC\<close>.\<close>

definition sys_open :: "world \<Rightarrow> path \<Rightarrow> oflag list \<Rightarrow> path sysres \<times> world" where
  "sys_open w p flags =
     (case sys_simple SC_open (emit (Ev_open p flags) w) of
        (Fail e, w1) \<Rightarrow> (Fail e, w1)
      | (Ok u, w1) \<Rightarrow>
          (case resolve (fs w1) 40 p of
             Fail e \<Rightarrow> (Fail e, w1)
           | Ok rp \<Rightarrow>
               (case fs w1 rp of
                  Some (Reg c) \<Rightarrow>
                    (Ok rp, w1\<lparr>fd_pos := 0,
                       fs := (if O_TRUNC \<in> set flags then (fs w1)(rp \<mapsto> Reg []) else fs w1)\<rparr>)
                | _ \<Rightarrow> (Ok rp, w1\<lparr>fd_pos := 0\<rparr>))))"

text \<open>\<open>lseek(fd, 0, SEEK_SET)\<close>.\<close>

definition sys_lseek0 :: "world \<Rightarrow> path \<Rightarrow> unit sysres \<times> world" where
  "sys_lseek0 w fd =
     (case sys_simple SC_lseek w of
        (Fail e, w1) \<Rightarrow> (Fail e, w1)
      | (Ok u, w1) \<Rightarrow> (Ok u, w1\<lparr>fd_pos := 0\<rparr>))"

text \<open>\<open>write(fd, buf, n)\<close>: an error, or the kernel takes at most \<open>n\<close> bytes, puts them
  at the descriptor's offset and advances the offset by their number.\<close>

definition sys_write :: "world \<Rightarrow> path \<Rightarrow> cell list \<Rightarrow> nat sysres \<times> world" where
  "sys_write w fd d =
     (case q_write w of
        [] \<Rightarrow> (Fail EIO, w)
      | r # rs \<Rightarrow>
          (case r of
             Fail e \<Rightarrow> (Fail e, w\<lparr>q_write := rs\<rparr>)
           | Ok k \<Rightarrow>
               (case fs w fd of
                  Some (Reg c) \<Rightarrow>
                    (Ok (min k (length d)),
                     emit (Ev_write (fd_pos w) (take k d))
                       (w\<lparr>q_write := rs,
                          fs := (fs w)(fd \<mapsto> Reg (store c (fd_pos w) (take k d))),
                          fd_pos := fd_pos w + min k (length d)\<rparr>))
                | _ \<Rightarrow> (Fail EBADF, w\<lparr>q_write := rs\<rparr>))))"

text \<open>\<open>rename(old, new)\<close> and \<open>unlink(p)\<close> act on the directory entries themselves (a
  symbolic link is renamed or removed, not its referent); a call that fails leaves the
  file system as it was. A path that does not exist fails with \<open>ENOENT\<close>; otherwise the
  script decides.\<close>

definition sys_rename :: "world \<Rightarrow> path \<Rightarrow> path \<Rightarrow> unit sysres \<times> world" where
  "sys_rename w old new =
     (case fs w old of
        None \<Rightarrow> (Fail ENOENT, emit (Ev_rename old new) w)
      | Some nd \<Rightarrow>
          (case sys_simple SC_rename (emit (Ev_rename old new) w) of
             (Fail e, w1) \<Rightarrow> (Fail e, w1)
           | (Ok u, w1) \<Rightarrow>
               (Ok u, if old = new then w1 else w1\<lparr>fs := (fs w1)(old := None, new \<mapsto> nd)\<rparr>)))"

definition sys_unlink :: "world \<Rightarrow> path \<Rightarrow> unit sysres \<times> world" where
  "sys_unlink w p =
     (case fs w p of
        None \<Rightarrow> (Fail ENOENT, emit (Ev_unlink p) w)
      | Some nd \<Rightarrow>
          (case sys_simple SC_unlink (emit (Ev_unlink p) w) of
             (Fail e, w1) \<Rightarrow> (Fail e, w1)
           | (Ok u, w1) \<Rightarrow> (Ok u, w1\<lparr>fs := (fs w1)(p := None)\<rparr>)))"

section \<open>The random byte source: \<^verbatim>\<open>fill_random\<close>\<close>

lemma sys_getrandom_shrinks:
  "sys_getrandom w n = (r, w') \<Longrightarrow> r \<noteq> Fail EIO \<Longrightarrow> length (q_getrandom w') < length (q_getrandom w)"
  by (auto simp: sys_getrandom_def split: list.splits sysres.splits)

lemma sys_read_shrinks:
  "sys_read w n = (r, w') \<Longrightarrow> r \<noteq> Fail EIO \<Longrightarrow> length (q_read w') < length (q_read w)"
  by (auto simp: sys_read_def split: list.splits sysres.splits)

text \<open>Lines 52 to 61: \<^verbatim>\<open>while (left) { r = getrandom(p, left, 0); ... }\<close>. The result is
  the buffer, \<open>left\<close> and the environment.\<close>

function getrandom_loop :: "world \<Rightarrow> cell list \<Rightarrow> nat \<Rightarrow> nat \<Rightarrow> cell list \<times> nat \<times> world" where
  "getrandom_loop w buf p left =
     (if left = 0 then (buf, left, w)
      else
        (case sys_getrandom w left of
           (Fail e, w1) \<Rightarrow>
             if e = EINTR then getrandom_loop w1 buf p left else (buf, left, w1)
         | (Ok bs, w1) \<Rightarrow>
             getrandom_loop w1 (store buf p (map Rnd bs)) (p + length bs) (left - length bs)))"
  by pat_completeness auto
termination
  by (relation "measure (\<lambda>(w, buf, p, left). length (q_getrandom w))")
     (auto dest: sys_getrandom_shrinks [OF sym])

text \<open>Lines 69 to 78: the read loop on \<^verbatim>\<open>/dev/urandom\<close>; \<open>total\<close> is an \<open>ssize_t\<close>.\<close>

function urandom_loop :: "world \<Rightarrow> cell list \<Rightarrow> nat \<Rightarrow> int \<Rightarrow> cell list \<times> int \<times> world" where
  "urandom_loop w buf len tot =
     (if tot < int len then
        (case sys_read w (len - nat tot) of
           (Fail e, w1) \<Rightarrow>
             if e = EINTR then urandom_loop w1 buf len tot else (buf, - 1, w1)
         | (Ok bs, w1) \<Rightarrow>
             if bs = [] then (buf, tot, w1)
             else urandom_loop w1 (store buf (nat tot) (map Rnd bs)) len (tot + int (length bs)))
      else (buf, tot, w))"
  by pat_completeness auto
termination
  by (relation "measure (\<lambda>(w, buf, len, tot). length (q_read w))")
     (auto dest: sys_read_shrinks [OF sym])

text \<open>\<^verbatim>\<open>fill_random(buf, len)\<close>, lines 44 to 81. \<^verbatim>\<open>sys/random.h\<close> is included
  unconditionally and defines \<open>GRND_NONBLOCK\<close>, so the \<open>getrandom\<close> part is compiled in.
  The result is the return value, the buffer and the environment.\<close>

definition fill_random :: "world \<Rightarrow> cell list \<Rightarrow> nat \<Rightarrow> int \<times> cell list \<times> world" where
  "fill_random w buf len =
     (case getrandom_loop w buf 0 len of
        (buf1, left, w1) \<Rightarrow>
          if left = 0 then (int len, buf1, w1)
          else
            (case sys_simple SC_open_urandom w1 of
               (Fail e, w2) \<Rightarrow> (- 1, buf1, w2)
             | (Ok u, w2) \<Rightarrow>
                 (case urandom_loop w2 buf1 len 0 of
                    (buf2, tot, w3) \<Rightarrow> (tot, buf2, emit Ev_close_urandom w3))))"

section \<open>The rename target: \<^verbatim>\<open>random_filename_in_dir\<close>\<close>

text \<open>\<^verbatim>\<open>sprintf(name + i*2, "%02x", (unsigned char)rndbuf[i])\<close>: two lowercase hexadecimal
  digits, the high nibble first.\<close>

definition hexdigit :: "nat \<Rightarrow> char" where
  "hexdigit n = ''0123456789abcdef'' ! n"

definition hex2 :: "byte \<Rightarrow> string" where
  "hex2 b = [hexdigit (unat b div 16), hexdigit (unat b mod 16)]"

text \<open>\<open>dirname\<close> is the C library's, not the program's: the model takes it as the
  parameter \<open>dn\<close>. For concrete runs, \<open>dirname_glibc\<close> follows glibc's: trailing slashes
  do not count, a path without a directory part gives \<^verbatim>\<open>.\<close>, and the directory part loses
  its own trailing slashes (two slashes alone at the start are kept).\<close>

definition rstrip_slash :: "string \<Rightarrow> string" where
  "rstrip_slash s = rev (dropWhile (\<lambda>c. c = CHR ''/'') (rev s))"

definition dirname_glibc :: "path \<Rightarrow> path" where
  "dirname_glibc s =
     (let t = rstrip_slash s in
      if t = [] then (if s = [] then ''.'' else if s = ''//'' then ''//'' else ''/'')
      else
        (let d = rev (dropWhile (\<lambda>c. c \<noteq> CHR ''/'') (rev t)) in
         if d = [] then ''.''
         else
           (let r = rstrip_slash d in
            if r = [] then (if d = ''//'' then ''//'' else ''/'') else r)))"

text \<open>Lines 91 to 115. \<open>strdup\<close> and \<open>malloc\<close> draw on the same allocator script;
  \<open>rndbuf\<close> starts as uninitialised stack memory. The loop of line 102 runs
  \<open>(int)name_len/2\<close> times and line 105 ends the string at \<open>name_len\<close>.\<close>

definition random_filename_in_dir :: "(path \<Rightarrow> path) \<Rightarrow> world \<Rightarrow> path \<Rightarrow> path option \<times> world" where
  "random_filename_in_dir dn w orig_path =
     (case sys_simple SC_malloc w of
        (Fail e, w1) \<Rightarrow> (None, w1)
      | (Ok u, w1) \<Rightarrow>
          (let dir = dn orig_path;
               name_len = (16 :: nat) in
           (case fill_random w1 (replicate 16 (Stale 0)) 16 of
              (r, rndbuf, w2) \<Rightarrow>
                if r \<noteq> 16 then (None, w2)
                else
                  (let name = take name_len
                         (concat (map (\<lambda>i. hex2 (byte_of (rndbuf ! i))) [0 ..< name_len div 2])) in
                   (case sys_simple SC_malloc w2 of
                      (Fail e, w3) \<Rightarrow> (None, w3)
                    | (Ok u, w3) \<Rightarrow> (Some (dir @ ''/'' @ name), w3))))))"

section \<open>The overwrite engine: \<^verbatim>\<open>overwrite_file\<close>\<close>

text \<open>\<^verbatim>\<open>static size_t CHUNK = 1024 * 1024\<close>, and the buffer size of line 136.\<close>

definition CHUNK :: nat where
  "CHUNK = 1024 * 1024"

definition bufsize_of :: "nat \<Rightarrow> nat" where
  "bufsize_of fsize = (if CHUNK < fsize then CHUNK else if fsize \<noteq> 0 then fsize else CHUNK)"

text \<open>For evaluation on small files \<open>CHUNK\<close> is left as it is rather than counted
  out.\<close>

lemma bufsize_of_code [code]:
  "bufsize_of fsize =
     (if fsize = 0 then CHUNK else if fsize \<le> 64 then fsize
      else if CHUNK < fsize then CHUNK else fsize)"
  by (simp add: bufsize_of_def CHUNK_def)

declare CHUNK_def [code del]

text \<open>The outcome of a function that may end the process: \<^verbatim>\<open>exit(status)\<close>, or a
  return to the caller.\<close>

datatype 'a proc = Exit nat world durability | Return 'a world durability

text \<open>\<^verbatim>\<open>alloc_buf\<close>, lines 35 to 42: the buffer (uninitialised memory), or the exit
  status 2.\<close>

definition alloc_buf :: "world \<Rightarrow> nat \<Rightarrow> (nat \<times> world) + (cell list \<times> world)" where
  "alloc_buf w fsize =
     (case sys_simple SC_malloc (emit (Ev_alloc fsize) w) of
        (Fail e, w1) \<Rightarrow> Inl (2, emit (Stderr (Msg_malloc_failed fsize)) w1)
      | (Ok u, w1) \<Rightarrow> Inr (replicate fsize (Stale 0), w1))"

definition sys_fdatasync :: "durability \<Rightarrow> unit sysres \<times> durability" where
  "sys_fdatasync d =
     (case q_fdatasync d of
        [] \<Rightarrow> (Fail EIO, d\<lparr>sync_log := sync_log d @ [Sync_fdatasync (Fail EIO)]\<rparr>)
      | r # rs \<Rightarrow> (r, d\<lparr>q_fdatasync := rs, sync_log := sync_log d @ [Sync_fdatasync r]\<rparr>))"

definition sys_fsync :: "durability \<Rightarrow> unit sysres \<times> durability" where
  "sys_fsync d =
     (case q_fsync d of
        [] \<Rightarrow> (Fail EIO, d\<lparr>sync_log := sync_log d @ [Sync_fsync (Fail EIO)]\<rparr>)
      | r # rs \<Rightarrow> (r, d\<lparr>q_fsync := rs, sync_log := sync_log d @ [Sync_fsync r]\<rparr>))"

text \<open>\<^verbatim>\<open>sync_and_check\<close>, lines 83 to 88.\<close>

definition sync_and_check :: "durability \<Rightarrow> path \<Rightarrow> int \<times> durability" where
  "sync_and_check d fd =
     (case sys_fdatasync d of
        (Ok u, d1) \<Rightarrow> (0, d1)
      | (Fail e, d1) \<Rightarrow>
          (case sys_fsync d1 of
             (Ok u, d2) \<Rightarrow> (0, d2)
           | (Fail e', d2) \<Rightarrow> (- 1, d2)))"

text \<open>\<^verbatim>\<open>if (verbose) perror("sync")\<close> and \<^verbatim>\<open>perror("fsync(dir)")\<close>.\<close>

definition sync_warn :: "bool \<Rightarrow> msg \<Rightarrow> durability \<Rightarrow> durability" where
  "sync_warn verbose m d = (if verbose then d\<lparr>sync_log := sync_log d @ [Sync_warning m]\<rparr> else d)"

text \<open>\<^verbatim>\<open>close(fd)\<close> where the source ignores its result.\<close>

definition close_fd :: "world \<Rightarrow> world" where
  "close_fd w = snd (sys_simple SC_close w)"

text \<open>What the random source may touch: the file system, the target's offset and the
  write script stay as they are, and the log grows by its own events only.\<close>

definition urandom_event :: "event \<Rightarrow> bool" where
  "urandom_event e =
     (case e of Ev_sys sc r \<Rightarrow> sc = SC_open_urandom | Ev_close_urandom \<Rightarrow> True | _ \<Rightarrow> False)"

definition rnd_frame :: "world \<Rightarrow> world \<Rightarrow> bool" where
  "rnd_frame w w' \<longleftrightarrow>
     fs w' = fs w \<and> fd_pos w' = fd_pos w \<and> q_write w' = q_write w \<and>
     (\<forall>sc. sc \<noteq> SC_open_urandom \<longrightarrow> q_sys w' sc = q_sys w sc) \<and>
     (\<exists>ev. trace w' = trace w @ ev \<and> list_all urandom_event ev)"

lemma rnd_frame_refl: "rnd_frame w w"
  by (simp add: rnd_frame_def)

lemma rnd_frame_trans: "rnd_frame w w1 \<Longrightarrow> rnd_frame w1 w2 \<Longrightarrow> rnd_frame w w2"
  by (auto simp: rnd_frame_def)

lemma sys_getrandom_frame: "sys_getrandom w n = (r, w') \<Longrightarrow> rnd_frame w w'"
  by (auto simp: sys_getrandom_def rnd_frame_def split: list.splits sysres.splits)

lemma sys_read_frame: "sys_read w n = (r, w') \<Longrightarrow> rnd_frame w w'"
  by (auto simp: sys_read_def rnd_frame_def split: list.splits sysres.splits)

lemma open_urandom_frame: "sys_simple SC_open_urandom w = (r, w') \<Longrightarrow> rnd_frame w w'"
  by (auto simp: sys_simple_def rnd_frame_def emit_def urandom_event_def split: list.splits)

lemma close_urandom_frame: "rnd_frame w (emit Ev_close_urandom w)"
  by (simp add: rnd_frame_def emit_def urandom_event_def)

lemma getrandom_loop_frame:
  "getrandom_loop w buf p left = (buf', left', w') \<Longrightarrow> rnd_frame w w'"
proof (induction w buf p left arbitrary: buf' left' w' rule: getrandom_loop.induct)
  case (1 w buf p left)
  show ?case
  proof (cases "left = 0")
    case True
    with "1.prems" show ?thesis by (simp add: rnd_frame_refl)
  next
    case False
    obtain r w1 where sg: "sys_getrandom w left = (r, w1)" by (cases "sys_getrandom w left")
    note f1 = sys_getrandom_frame[OF sg]
    show ?thesis
    proof (cases r)
      case (Fail e)
      show ?thesis
      proof (cases "e = EINTR")
        case True
        with False sg Fail "1.prems" have "getrandom_loop w1 buf p left = (buf', left', w')"
          by (simp add: getrandom_loop.simps[of w])
        from "1.IH"(1)[OF False sg[symmetric] Fail True this] f1 show ?thesis
          by (rule rnd_frame_trans[rotated])
      next
        case ne: False
        with False sg Fail "1.prems" f1 show ?thesis
          by (simp add: getrandom_loop.simps[of w])
      qed
    next
      case (Ok bs)
      from False sg Ok "1.prems" have rec:
        "getrandom_loop w1 (store buf p (map Rnd bs)) (p + length bs) (left - length bs) = (buf', left', w')"
        by (simp add: getrandom_loop.simps[of w])
      from "1.IH"(2)[OF False sg[symmetric] Ok rec] f1 show ?thesis
        by (rule rnd_frame_trans[rotated])
    qed
  qed
qed

lemma urandom_loop_frame:
  "urandom_loop w buf len tot = (buf', tot', w') \<Longrightarrow> rnd_frame w w'"
proof (induction w buf len tot arbitrary: buf' tot' w' rule: urandom_loop.induct)
  case (1 w buf len tot)
  show ?case
  proof (cases "tot < int len")
    case False
    with "1.prems" show ?thesis by (simp add: urandom_loop.simps[of w] rnd_frame_refl)
  next
    case True
    obtain r w1 where sr: "sys_read w (len - nat tot) = (r, w1)"
      by (cases "sys_read w (len - nat tot)")
    note f1 = sys_read_frame[OF sr]
    show ?thesis
    proof (cases r)
      case (Fail e)
      show ?thesis
      proof (cases "e = EINTR")
        case eintr: True
        with True sr Fail "1.prems" have "urandom_loop w1 buf len tot = (buf', tot', w')"
          by (simp add: urandom_loop.simps[of w])
        from "1.IH"(1)[OF True sr[symmetric] Fail eintr this] f1 show ?thesis
          by (rule rnd_frame_trans[rotated])
      next
        case False
        with True sr Fail "1.prems" f1 show ?thesis
          by (simp add: urandom_loop.simps[of w])
      qed
    next
      case (Ok bs)
      show ?thesis
      proof (cases "bs = []")
        case empty: True
        with True sr Ok "1.prems" f1 show ?thesis
          by (simp add: urandom_loop.simps[of w])
      next
        case False
        from False True sr Ok "1.prems" have rec:
          "urandom_loop w1 (store buf (nat tot) (map Rnd bs)) len (tot + int (length bs)) = (buf', tot', w')"
          by (simp add: urandom_loop.simps[of w])
        from "1.IH"(2)[OF True sr[symmetric] Ok False rec] f1 show ?thesis
          by (rule rnd_frame_trans[rotated])
      qed
    qed
  qed
qed

lemma fill_random_frame:
  assumes "fill_random w buf len = (ret, buf', w')"
  shows "rnd_frame w w'"
proof -
  obtain buf1 left w1 where gl: "getrandom_loop w buf 0 len = (buf1, left, w1)"
    by (cases "getrandom_loop w buf 0 len")
  note f1 = getrandom_loop_frame[OF gl]
  show ?thesis
  proof (cases "left = 0")
    case True
    with assms gl f1 show ?thesis by (simp add: fill_random_def)
  next
    case False
    obtain r w2 where so: "sys_simple SC_open_urandom w1 = (r, w2)"
      by (cases "sys_simple SC_open_urandom w1")
    note f2 = rnd_frame_trans[OF f1 open_urandom_frame[OF so]]
    show ?thesis
    proof (cases r)
      case (Fail e)
      with assms gl so False f2 show ?thesis by (simp add: fill_random_def)
    next
      case (Ok u)
      obtain buf2 tot w3 where ul: "urandom_loop w2 buf1 len 0 = (buf2, tot, w3)"
        by (cases "urandom_loop w2 buf1 len 0")
      note f3 = rnd_frame_trans[OF f2 urandom_loop_frame[OF ul]]
      from assms gl so Ok False ul have "w' = emit Ev_close_urandom w3"
        by (simp add: fill_random_def)
      with rnd_frame_trans[OF f3 close_urandom_frame] show ?thesis by simp
    qed
  qed
qed

lemma sys_write_shrinks:
  "sys_write w fd d = (r, w') \<Longrightarrow> r \<noteq> Fail EIO \<Longrightarrow> r \<noteq> Fail EBADF \<Longrightarrow>
   length (q_write w') < length (q_write w)"
  by (auto simp: sys_write_def emit_def split: list.splits sysres.splits option.splits node.splits)

lemma write_after_fill_shrinks:
  assumes "(r, buf1, w1) = fill_random w buf n" and "(x, w2) = sys_write w1 fd d"
    and "x = Fail EINTR \<or> x = Ok k"
  shows "length (q_write w2) < length (q_write w)"
proof -
  from fill_random_frame[OF assms(1)[symmetric]] have "q_write w1 = q_write w"
    by (simp add: rnd_frame_def)
  with sys_write_shrinks[OF assms(2)[symmetric]] assms(3) show ?thesis by auto
qed

text \<open>Lines 148 to 166, the write loop of a random pass. \<open>fd\<close> is the node the
  descriptor refers to. Every path that returns \<open>-1\<close> closes the descriptor first.\<close>

function random_pass_loop ::
  "bool \<Rightarrow> path \<Rightarrow> nat \<Rightarrow> nat \<Rightarrow> world \<Rightarrow> cell list \<Rightarrow> nat \<Rightarrow> bool \<times> cell list \<times> world" where
  "random_pass_loop verbose fd fsize bufsize w buf written_total =
     (if written_total < fsize then
        (let towrite = (if fsize - written_total < bufsize then fsize - written_total else bufsize) in
         (case fill_random w buf towrite of
            (r, buf1, w1) \<Rightarrow>
              if r \<noteq> int towrite then (False, buf1, close_fd (warn verbose Msg_random_failed w1))
              else
                (case sys_write w1 fd (take towrite buf1) of
                   (Fail e, w2) \<Rightarrow>
                     if e = EINTR then random_pass_loop verbose fd fsize bufsize w2 buf1 written_total
                     else (False, buf1, close_fd (warn verbose (Perror ''write'') w2))
                 | (Ok n, w2) \<Rightarrow>
                     random_pass_loop verbose fd fsize bufsize w2 buf1 (written_total + n))))
      else (True, buf, w))"
  by pat_completeness auto
termination
  apply (relation "measure (\<lambda>(verbose, fd, fsize, bufsize, w, buf, written_total). length (q_write w))")
    apply simp
   apply (auto dest: write_after_fill_shrinks)
  done

text \<open>Lines 184 to 196, the write loop of the zero pass: the buffer is written as it is.\<close>

function zero_pass_loop ::
  "bool \<Rightarrow> path \<Rightarrow> nat \<Rightarrow> nat \<Rightarrow> world \<Rightarrow> cell list \<Rightarrow> nat \<Rightarrow> bool \<times> world" where
  "zero_pass_loop verbose fd fsize bufsize w buf written_total =
     (if written_total < fsize then
        (let towrite = (if fsize - written_total < bufsize then fsize - written_total else bufsize) in
         (case sys_write w fd (take towrite buf) of
            (Fail e, w1) \<Rightarrow>
              if e = EINTR then zero_pass_loop verbose fd fsize bufsize w1 buf written_total
              else (False, close_fd (warn verbose (Perror ''write'') w1))
          | (Ok n, w1) \<Rightarrow> zero_pass_loop verbose fd fsize bufsize w1 buf (written_total + n)))
      else (True, w))"
  by pat_completeness auto
termination
  by (relation "measure (\<lambda>(verbose, fd, fsize, bufsize, w, buf, written_total). length (q_write w))")
     (auto dest: sys_write_shrinks [OF sym])

text \<open>Lines 139 to 172, the passes \<open>pass..passes\<close>: seek to 0, write the pass, then the
  checkpoint, whose failure is a warning under \<open>verbose\<close> and nothing else. The counter is
  an \<open>int\<close> of the model: \<open>++pass\<close> of the source overflows only for \<open>passes = INT_MAX\<close>.\<close>

function pass_loop ::
  "bool \<Rightarrow> path \<Rightarrow> path \<Rightarrow> nat \<Rightarrow> nat \<Rightarrow> int \<Rightarrow> world \<Rightarrow> durability \<Rightarrow> cell list \<Rightarrow> int
     \<Rightarrow> bool \<times> cell list \<times> world \<times> durability" where
  "pass_loop verbose path fd fsize bufsize passes w d buf pass =
     (if pass \<le> passes then
        (case sys_lseek0 (warn verbose (Msg_pass pass passes path) w) fd of
           (Fail e, w1) \<Rightarrow> (False, buf, close_fd (warn verbose (Perror ''lseek'') w1), d)
         | (Ok u, w1) \<Rightarrow>
             (case random_pass_loop verbose fd fsize bufsize w1 buf 0 of
                (ok, buf1, w2) \<Rightarrow>
                  if \<not> ok then (False, buf1, w2, d)
                  else
                    (case sync_and_check d fd of
                       (s, d1) \<Rightarrow>
                         pass_loop verbose path fd fsize bufsize passes w2
                           (if s \<noteq> 0 then sync_warn verbose (Perror ''sync'') d1 else d1)
                           buf1 (pass + 1))))
      else (True, buf, w, d))"
  by pat_completeness auto
termination
  by (relation "measure (\<lambda>(verbose, path, fd, fsize, bufsize, passes, w, d, buf, pass).
        nat (passes + 1 - pass))") auto

text \<open>Lines 174 to 200, the final zero pass: \<open>memset\<close> once, before the loop.\<close>

definition final_zero_pass ::
  "bool \<Rightarrow> path \<Rightarrow> path \<Rightarrow> nat \<Rightarrow> nat \<Rightarrow> world \<Rightarrow> durability \<Rightarrow> cell list
     \<Rightarrow> bool \<times> world \<times> durability" where
  "final_zero_pass verbose path fd fsize bufsize w d buf =
     (case sys_lseek0 (warn verbose (Msg_final_zero path) w) fd of
        (Fail e, w1) \<Rightarrow> (False, close_fd (warn verbose (Perror ''lseek'') w1), d)
      | (Ok u, w1) \<Rightarrow>
          (case zero_pass_loop verbose fd fsize bufsize (emit (Ev_memset bufsize) w1)
                  (store buf 0 (replicate bufsize Zeroed)) 0 of
             (ok, w2) \<Rightarrow>
               if \<not> ok then (False, w2, d)
               else
                 (case sync_and_check d fd of
                    (s, d1) \<Rightarrow>
                      (True, w2, if s \<noteq> 0 then sync_warn verbose (Perror ''sync'') d1 else d1))))"

text \<open>\<^verbatim>\<open>overwrite_file(path, passes, final_zero, verbose)\<close>, lines 117 to 207. The result is
  the return value (0 or \<open>-1\<close>), or the exit of the process in \<open>alloc_buf\<close>.\<close>

definition overwrite_file ::
  "world \<Rightarrow> durability \<Rightarrow> path \<Rightarrow> int \<Rightarrow> bool \<Rightarrow> bool \<Rightarrow> int proc" where
  "overwrite_file w d path passes final_zero verbose =
     (case sys_stat w path of
        (Fail e, w1) \<Rightarrow> Return (- 1) (warn verbose (Perror ''stat'') w1) d
      | (Ok st, w1) \<Rightarrow>
          if st_mode st \<noteq> S_IFREG then Return (- 1) (warn verbose (Msg_skipping path) w1) d
          else
            (let fsize = st_size st in
             (case sys_open w1 path [O_WRONLY] of
                (Fail e, w2) \<Rightarrow> Return (- 1) (warn verbose (Perror ''open'') w2) d
              | (Ok fd, w2) \<Rightarrow>
                  (let bufsize = bufsize_of fsize in
                   (case alloc_buf w2 bufsize of
                      Inl (status, w3) \<Rightarrow> Exit status w3 d
                    | Inr (buf, w3) \<Rightarrow>
                        (case pass_loop verbose path fd fsize bufsize passes w3 d buf 1 of
                           (ok, buf1, w4, d1) \<Rightarrow>
                             if \<not> ok then Return (- 1) w4 d1
                             else
                               (case (if final_zero
                                      then final_zero_pass verbose path fd fsize bufsize w4 d1 buf1
                                      else (True, w4, d1)) of
                                  (ok', w5, d2) \<Rightarrow>
                                    if \<not> ok' then Return (- 1) w5 d2
                                    else
                                      (case sys_simple SC_close w5 of
                                         (Fail e, w6) \<Rightarrow> Return 0 (warn verbose (Perror ''close'') w6) d2
                                       | (Ok u, w6) \<Rightarrow> Return 0 w6 d2))))))))"

section \<open>The loop of \<^verbatim>\<open>main\<close> over the files\<close>

text \<open>Lines 279 to 285: \<open>unlink\<close> of a path; the result says whether it succeeded
  (\<open>exit_status\<close> is left alone) or failed (\<open>exit_status = 2\<close>).\<close>

definition unlink_path :: "bool \<Rightarrow> world \<Rightarrow> path \<Rightarrow> bool \<times> world" where
  "unlink_path verbose w p =
     (case sys_unlink w p of
        (Fail e, w1) \<Rightarrow> (False, warn verbose (Perror ''unlink'') w1)
      | (Ok u, w1) \<Rightarrow> (True, warn verbose (Msg_unlinked p) w1))"

text \<open>Lines 259 to 266: the best-effort \<open>fsync\<close> of the directory of the new name.
  \<open>dirname(NULL)\<close>, after a failed \<open>strdup\<close>, is \<^verbatim>\<open>.\<close> in glibc.\<close>

definition fsync_dir :: "(path \<Rightarrow> path) \<Rightarrow> bool \<Rightarrow> world \<Rightarrow> durability \<Rightarrow> path \<Rightarrow> world \<times> durability" where
  "fsync_dir dn verbose w d newname =
     (case sys_simple SC_malloc w of
        (tmp, w1) \<Rightarrow>
          (let dir = (case tmp of Ok u \<Rightarrow> dn newname | Fail e \<Rightarrow> ''.'') in
           (case sys_simple SC_open_dir (emit (Ev_open dir [O_DIRECTORY, O_RDONLY]) w1) of
              (Fail e, w2) \<Rightarrow> (w2, d)
            | (Ok u, w2) \<Rightarrow>
                (case sys_fsync d of
                   (Fail e, d1) \<Rightarrow> (close_fd w2, sync_warn verbose (Perror ''fsync(dir)'') d1)
                 | (Ok u', d1) \<Rightarrow> (close_fd w2, d1)))))"

text \<open>Lines 249 to 285, what \<open>main\<close> does with a file once it is overwritten: rename
  it to the random name, sync the directory and unlink the new name; where there is no new
  name or the rename fails, unlink the original path.\<close>

definition rename_and_unlink ::
  "(path \<Rightarrow> path) \<Rightarrow> bool \<Rightarrow> world \<Rightarrow> durability \<Rightarrow> path \<Rightarrow> bool \<times> world \<times> durability" where
  "rename_and_unlink dn verbose w d path =
     (case random_filename_in_dir dn w path of
        (None, w1) \<Rightarrow> (case unlink_path verbose w1 path of (ok, w2) \<Rightarrow> (ok, w2, d))
      | (Some newname, w1) \<Rightarrow>
          (case sys_rename w1 path newname of
             (Fail e, w2) \<Rightarrow>
               (case unlink_path verbose (warn verbose (Perror ''rename'') w2) path of
                  (ok, w3) \<Rightarrow> (ok, w3, d))
           | (Ok u, w2) \<Rightarrow>
               (case fsync_dir dn verbose (warn verbose (Msg_renamed path newname) w2) d newname of
                  (w3, d1) \<Rightarrow>
                    (case unlink_path verbose w3 newname of (ok, w4) \<Rightarrow> (ok, w4, d1)))))"

text \<open>One iteration of the loop of lines 239 to 286: whether the file was processed
  without setting \<open>exit_status\<close>, or the exit of the process.\<close>

definition process_file ::
  "(path \<Rightarrow> path) \<Rightarrow> int \<Rightarrow> bool \<Rightarrow> bool \<Rightarrow> world \<Rightarrow> durability \<Rightarrow> path \<Rightarrow> bool proc" where
  "process_file dn passes final_zero verbose w d path =
     (case overwrite_file (warn verbose (Msg_processing path) w) d path passes final_zero verbose of
        Exit status w1 d1 \<Rightarrow> Exit status w1 d1
      | Return r w1 d1 \<Rightarrow>
          if r \<noteq> 0 then Return False (emit (Stderr (Msg_failed path)) w1) d1
          else
            (case rename_and_unlink dn verbose w1 d1 path of
               (ok, w2, d2) \<Rightarrow> Return ok w2 d2))"

text \<open>Lines 238 to 288: \<open>exit_status\<close> through the files \<open>argv[optind..]\<close>, and what
  the process ends with.\<close>

fun main_loop ::
  "(path \<Rightarrow> path) \<Rightarrow> int \<Rightarrow> bool \<Rightarrow> bool \<Rightarrow> world \<Rightarrow> durability \<Rightarrow> path list \<Rightarrow> nat \<Rightarrow> nat proc" where
  "main_loop dn passes final_zero verbose w d [] exit_status = Return exit_status w d"
| "main_loop dn passes final_zero verbose w d (path # paths) exit_status =
     (case process_file dn passes final_zero verbose w d path of
        Exit status w1 d1 \<Rightarrow> Exit status w1 d1
      | Return ok w1 d1 \<Rightarrow>
          main_loop dn passes final_zero verbose w1 d1 paths (if ok then exit_status else 2))"

text \<open>The exit status of the process: the argument of \<open>exit\<close>, or what \<open>main\<close>
  returns.\<close>

fun exit_code :: "nat proc \<Rightarrow> nat" where
  "exit_code (Exit status w d) = status"
| "exit_code (Return status w d) = status"

section \<open>Reading the log\<close>

text \<open>A write event covers the offsets it wrote; \<open>rnd_at\<close> and \<open>zero_at\<close> say what it
  put at an offset. \<open>hits P ev\<close> counts the events of \<open>ev\<close> that satisfy \<open>P\<close>.\<close>

fun covers :: "nat \<Rightarrow> event \<Rightarrow> bool" where
  "covers k (Ev_write off d) = (off \<le> k \<and> k < off + length d)"
| "covers k e = False"

fun rnd_at :: "nat \<Rightarrow> event \<Rightarrow> bool" where
  "rnd_at k (Ev_write off d) = (off \<le> k \<and> k < off + length d \<and> is_rnd (d ! (k - off)))"
| "rnd_at k e = False"

fun zero_at :: "nat \<Rightarrow> event \<Rightarrow> bool" where
  "zero_at k (Ev_write off d) = (off \<le> k \<and> k < off + length d \<and> d ! (k - off) = Zeroed)"
| "zero_at k e = False"

fun is_memset :: "event \<Rightarrow> bool" where
  "is_memset (Ev_memset n) = True"
| "is_memset e = False"

fun is_write :: "event \<Rightarrow> bool" where
  "is_write (Ev_write off d) = True"
| "is_write e = False"

fun is_alloc :: "event \<Rightarrow> bool" where
  "is_alloc (Ev_alloc n) = True"
| "is_alloc e = False"

definition hits :: "(event \<Rightarrow> bool) \<Rightarrow> event list \<Rightarrow> nat" where
  "hits P ev = length (filter P ev)"

text \<open>The events of the passes other than writes and \<open>memset\<close>.\<close>

fun quiet_event :: "event \<Rightarrow> bool" where
  "quiet_event (Ev_sys sc r) = (sc = SC_open_urandom \<or> sc = SC_lseek \<or> sc = SC_close)"
| "quiet_event Ev_close_urandom = True"
| "quiet_event (Stderr m) = True"
| "quiet_event e = False"

text \<open>The events of the passes on a file of length \<open>L\<close>: no write ends past \<open>L\<close>.\<close>

fun engine_event :: "nat \<Rightarrow> event \<Rightarrow> bool" where
  "engine_event L (Ev_write off d) = (off + length d \<le> L)"
| "engine_event L (Ev_memset n) = True"
| "engine_event L e = quiet_event e"

text \<open>The checkpoints asked for: every \<open>sync_and_check\<close> calls \<open>fdatasync\<close> once.\<close>

fun is_fdatasync :: "sync_event \<Rightarrow> bool" where
  "is_fdatasync (Sync_fdatasync r) = True"
| "is_fdatasync e = False"

definition checkpoints :: "durability \<Rightarrow> nat" where
  "checkpoints d = length (filter is_fdatasync (sync_log d))"

text \<open>The path names a regular file: followed through its symbolic links, as \<open>stat\<close>
  does, it ends at the node \<open>rp\<close>, a regular file of content \<open>c\<close>.\<close>

definition names_regular :: "world \<Rightarrow> path \<Rightarrow> path \<Rightarrow> cell list \<Rightarrow> bool" where
  "names_regular w p rp c \<longleftrightarrow> resolve (fs w) 40 p = Ok rp \<and> fs w rp = Some (Reg c)"

text \<open>A step that leaves the file system and the target's offset alone and logs quiet events
  only.\<close>

definition quiet :: "world \<Rightarrow> world \<Rightarrow> bool" where
  "quiet w w' \<longleftrightarrow>
     fs w' = fs w \<and> fd_pos w' = fd_pos w \<and>
     (\<exists>ev. trace w' = trace w @ ev \<and> list_all quiet_event ev)"

text \<open>What a pass leaves of a file of length \<open>L\<close> behind the descriptor \<open>fd\<close>: the log
  grown by \<open>ev\<close>, events of the passes, and the file still of length \<open>L\<close>, every other
  node as it was.\<close>

definition pass_post :: "nat \<Rightarrow> path \<Rightarrow> world \<Rightarrow> world \<Rightarrow> event list \<Rightarrow> bool" where
  "pass_post L fd w w' ev \<longleftrightarrow>
     trace w' = trace w @ ev \<and> list_all (engine_event L) ev \<and>
     (\<exists>c'. fs w' = (fs w)(fd \<mapsto> Reg c') \<and> length c' = L)"

text \<open>The per-file outcomes of the loop of \<^verbatim>\<open>main\<close>, in order, up to the end of the
  process.\<close>

fun file_results ::
  "(path \<Rightarrow> path) \<Rightarrow> int \<Rightarrow> bool \<Rightarrow> bool \<Rightarrow> world \<Rightarrow> durability \<Rightarrow> path list \<Rightarrow> bool list" where
  "file_results dn passes final_zero verbose w d [] = []"
| "file_results dn passes final_zero verbose w d (path # paths) =
     (case process_file dn passes final_zero verbose w d path of
        Exit status w1 d1 \<Rightarrow> []
      | Return ok w1 d1 \<Rightarrow> ok # file_results dn passes final_zero verbose w1 d1 paths)"


fun proc_durability :: "'a proc \<Rightarrow> durability" where
  "proc_durability (Exit status w d) = d"
| "proc_durability (Return r w d) = d"

fun proc_world :: "'a proc \<Rightarrow> world" where
  "proc_world (Exit status w d) = w"
| "proc_world (Return r w d) = w"

text \<open>What \<^verbatim>\<open>overwrite_file\<close> leaves once the file is open: the log grown by the calls up
  to the allocation of the buffer and then by \<open>ev\<close>, events of the passes; the file still
  of length \<open>L\<close>, every other node as it was.\<close>

definition overwrite_shape :: "nat \<Rightarrow> path \<Rightarrow> path \<Rightarrow> world \<Rightarrow> world \<Rightarrow> event list \<Rightarrow> bool" where
  "overwrite_shape L path rp w w' ev \<longleftrightarrow>
     (\<exists>r. trace w' = trace w @
        [Ev_stat path, Ev_open path [O_WRONLY], Ev_sys SC_open (Ok ()),
         Ev_alloc (bufsize_of L), Ev_sys SC_malloc r] @ ev) \<and>
     list_all (engine_event L) ev \<and>
     (\<exists>c'. fs w' = (fs w)(rp \<mapsto> Reg c') \<and> length c' = L)"

text \<open>What the log and the durability layer show after \<open>passes\<close> random passes and the
  zero pass, if any, over a file of length \<open>L\<close>.\<close>

definition overwrite_counts ::
  "nat \<Rightarrow> int \<Rightarrow> bool \<Rightarrow> event list \<Rightarrow> durability \<Rightarrow> durability \<Rightarrow> bool" where
  "overwrite_counts L passes final_zero ev d d' \<longleftrightarrow>
     checkpoints d' = checkpoints d + nat passes + (if final_zero then 1 else 0) \<and>
     hits is_memset ev = (if final_zero then 1 else 0) \<and>
     (\<forall>k. hits (rnd_at k) ev = (if k < L then nat passes else 0)) \<and>
     (\<forall>k. hits (zero_at k) ev = (if k < L \<and> final_zero then 1 else 0)) \<and>
     (\<forall>k. hits (covers k) ev = (if k < L then nat passes + (if final_zero then 1 else 0) else 0))"

text \<open>The events a call added to the log, and the value a call returned, if it returned.\<close>

definition new_events :: "world \<Rightarrow> world \<Rightarrow> event list" where
  "new_events w w' = drop (length (trace w)) (trace w')"

fun returned :: "'a proc \<Rightarrow> 'a option" where
  "returned (Exit status w d) = None"
| "returned (Return r w d) = Some r"

fun is_open :: "event \<Rightarrow> bool" where
  "is_open (Ev_open p flags) = True"
| "is_open e = False"

text \<open>A write that stays within the first \<open>L\<close> bytes.\<close>

fun within :: "nat \<Rightarrow> event \<Rightarrow> bool" where
  "within L (Ev_write off d) = (off + length d \<le> L)"
| "within L e = True"


text \<open>The events of \<open>rename\<close> and \<open>unlink\<close>: the calls and the outcomes the script gave.\<close>

fun fs_event :: "event \<Rightarrow> bool" where
  "fs_event (Ev_rename old new) = True"
| "fs_event (Ev_unlink p) = True"
| "fs_event (Ev_sys sc r) = (sc = SC_rename \<or> sc = SC_unlink)"
| "fs_event e = False"

fun is_unlink :: "event \<Rightarrow> bool" where
  "is_unlink (Ev_unlink p) = True"
| "is_unlink e = False"

fun is_stat :: "event \<Rightarrow> bool" where
  "is_stat (Ev_stat p) = True"
| "is_stat e = False"

fun is_rename :: "event \<Rightarrow> bool" where
  "is_rename (Ev_rename old new) = True"
| "is_rename e = False"

text \<open>A step that leaves the file system alone and calls neither \<open>rename\<close> nor
  \<open>unlink\<close> nor \<open>stat\<close>.\<close>

definition calm :: "world \<Rightarrow> world \<Rightarrow> bool" where
  "calm w w' \<longleftrightarrow>
     fs w' = fs w \<and>
     (\<exists>ev. trace w' = trace w @ ev \<and> filter fs_event ev = [] \<and> filter is_stat ev = [])"

text \<open>A step that does not call \<open>stat\<close>.\<close>

definition stat_free :: "world \<Rightarrow> world \<Rightarrow> bool" where
  "stat_free w w' \<longleftrightarrow> (\<exists>ev. trace w' = trace w @ ev \<and> filter is_stat ev = [])"

section \<open>Concrete environments\<close>

definition w_c1 :: world where
  "w_c1 = \<lparr>fs = Map.empty, fd_pos = 0,
     q_getrandom = [Ok [0, 1, 2, 3, 4, 5, 6, 7, 8, 9, 10, 11, 12, 13, 14, 15]], q_read = [], q_write = [],
     q_sys = (\<lambda>_. [])(SC_malloc := [Ok (), Ok ()]), trace = []\<rparr>"


text \<open>A three-byte file, reached through a symbolic link as well, and a directory. The
  kernel takes two bytes of the first write, interrupts the next one, and later takes one
  byte of a write of three; \<open>getrandom\<close> is interrupted once.\<close>

definition w_file :: world where
  "w_file = \<lparr>fs = [''/tmp/a'' \<mapsto> Reg [Stale 170, Stale 170, Stale 170],
           ''/tmp/l'' \<mapsto> Symlink ''/tmp/a'', ''/tmp/d'' \<mapsto> Dir],
     fd_pos = 0,
     q_getrandom = [Ok [1, 2, 3], Ok [4], Fail EINTR, Ok [5, 6, 7, 8], Ok [9, 10, 11],
       Ok [0, 1, 2, 3, 4, 5, 6, 7, 8, 9, 10, 11, 12, 13, 14, 15]],
     q_read = [],
     q_write = [Ok 2, Fail EINTR, Ok 5, Ok 3, Ok 1, Ok 2],
     q_sys = (\<lambda>_. [])(SC_malloc := [Ok (), Ok (), Ok (), Ok ()], SC_open := [Ok ()],
       SC_lseek := [Ok (), Ok (), Ok ()], SC_close := [Ok (), Ok ()], SC_rename := [Ok ()],
       SC_unlink := [Ok ()], SC_open_dir := [Ok ()]),
     trace = []\<rparr>"

text \<open>A durability layer whose first checkpoint fails in both calls.\<close>

definition d_flaky :: durability where
  "d_flaky = \<lparr>q_fdatasync = [Fail EINVAL, Ok ()], q_fsync = [Fail EIO], sync_log = []\<rparr>"

text \<open>A durability layer on which every call fails.\<close>

definition d_dead :: durability where
  "d_dead = \<lparr>q_fdatasync = [], q_fsync = [], sync_log = []\<rparr>"

text \<open>An empty file, with no random source at all and no write the kernel would take.\<close>

definition w_empty :: world where
  "w_empty = \<lparr>fs = [''/tmp/e'' \<mapsto> Reg []],
     fd_pos = 0, q_getrandom = [], q_read = [], q_write = [],
     q_sys = (\<lambda>_. [])(SC_malloc := [Ok ()], SC_open := [Ok ()],
       SC_lseek := [Ok (), Ok (), Ok ()], SC_close := [Ok ()]),
     trace = []\<rparr>"

text \<open>The runs of \<^verbatim>\<open>overwrite_file\<close> examined below: two passes and the zero pass,
  verbose, on the three-byte file through its link; the same on the empty file.\<close>

definition run_file :: "int proc" where
  "run_file = overwrite_file w_file d_flaky ''/tmp/l'' 2 True True"

definition run_empty :: "int proc" where
  "run_empty = overwrite_file w_empty d_dead ''/tmp/e'' 2 True False"

text \<open>The three-byte file with an allocator that has nothing to give.\<close>

definition w_nomem :: world where
  "w_nomem = w_file\<lparr>q_sys := (q_sys w_file)(SC_malloc := [])\<rparr>"

text \<open>What \<^verbatim>\<open>main\<close> does after the run on the three-byte file: the rename to the random
  name succeeds. And the same on a file system that refuses the rename.\<close>

definition run_remove :: "bool \<times> world \<times> durability" where
  "run_remove =
     rename_and_unlink dirname_glibc True (proc_world run_file) (proc_durability run_file) ''/tmp/l''"

definition w_norename :: world where
  "w_norename = w_file\<lparr>q_sys := (q_sys w_file)(SC_rename := [Fail EXDEV])\<rparr>"

definition run_fallback :: "bool \<times> world \<times> durability" where
  "run_fallback = rename_and_unlink dirname_glibc False w_norename d_dead ''/tmp/a''"

text \<open>The loop of \<^verbatim>\<open>main\<close> over the link and a path that does not exist; over a
  directory; over the file with the empty allocator.\<close>

definition run_main :: "nat proc" where
  "run_main = main_loop dirname_glibc 2 True False w_file d_flaky [''/tmp/l'', ''/tmp/x''] 0"

definition run_main_dir :: "nat proc" where
  "run_main_dir = main_loop dirname_glibc 2 True False w_file d_flaky [''/tmp/d''] 0"

definition run_main_nomem :: "nat proc" where
  "run_main_nomem = main_loop dirname_glibc 2 True False w_nomem d_flaky [''/tmp/a'', ''/tmp/d''] 0"

section \<open>The random byte source and the rename target\<close>

lemma store_length: "p + length d \<le> length c \<Longrightarrow> length (store c p d) = length c"
  by (simp add: store_def)

lemma store_store: "p + length a \<le> length c \<Longrightarrow> store (store c p a) (p + length a) b = store c p (a @ b)"
proof -
  assume a: "p + length a \<le> length c"
  then have "min (length c) p = p" by simp
  moreover have "length c \<le> p \<Longrightarrow> a = []"
  proof -
    assume "length c \<le> p"
    with a have "length a = 0" by linarith
    then show "a = []" by simp
  qed
  ultimately show ?thesis using a by (auto simp: store_def add.assoc add.commute add.left_commute)
qed

lemma store_nil: "p \<le> length c \<Longrightarrow> store c p [] = c"
  by (simp add: store_def)

lemma getrandom_loop_store:
  "getrandom_loop w buf p left = (buf', left', w') \<Longrightarrow> p + left \<le> length buf \<Longrightarrow>
   \<exists>bs. buf' = store buf p (map Rnd bs) \<and> length bs + left' = left"
proof (induction w buf p left arbitrary: buf' left' w' rule: getrandom_loop.induct)
  case (1 w buf p left)
  show ?case
  proof (cases "left = 0")
    case True
    with "1.prems" show ?thesis by (auto simp: store_nil intro!: exI[of _ "[]"])
  next
    case False
    obtain r w1 where sg: "sys_getrandom w left = (r, w1)" by (cases "sys_getrandom w left")
    show ?thesis
    proof (cases r)
      case (Fail e)
      show ?thesis
      proof (cases "e = EINTR")
        case True
        with False sg Fail "1.prems" have "getrandom_loop w1 buf p left = (buf', left', w')"
          by (simp add: getrandom_loop.simps[of w])
        from "1.IH"(1)[OF False sg[symmetric] Fail True this "1.prems"(2)] show ?thesis .
      next
        case ne: False
        with False sg Fail "1.prems" show ?thesis
          by (auto simp: getrandom_loop.simps[of w] store_nil intro!: exI[of _ "[]"])
      qed
    next
      case (Ok bs)
      have len: "length bs \<le> left" using sg Ok
        by (auto simp: sys_getrandom_def split: list.splits sysres.splits)
      from False sg Ok "1.prems" have rec: "getrandom_loop w1 (store buf p (map Rnd bs)) (p + length bs) (left - length bs) = (buf', left', w')"
        by (simp add: getrandom_loop.simps[of w])
      have "p + length bs + (left - length bs) \<le> length (store buf p (map Rnd bs))"
        using len "1.prems"(2) by (simp add: store_length)
      from "1.IH"(2)[OF False sg[symmetric] Ok rec this]
      obtain cs where cs: "buf' = store (store buf p (map Rnd bs)) (p + length bs) (map Rnd cs)" "length cs + left' = left - length bs"
        by blast
      have "buf' = store buf p (map Rnd (bs @ cs))"
        using cs(1) store_store[of p "map Rnd bs" buf "map Rnd cs"] len "1.prems"(2) by simp
      moreover have "length (bs @ cs) + left' = left" using cs(2) len by simp
      ultimately show ?thesis by blast
    qed
  qed
qed


lemma urandom_loop_store:
  "urandom_loop w buf len tot = (buf', tot', w') \<Longrightarrow> 0 \<le> tot \<Longrightarrow> tot \<le> int len \<Longrightarrow> len \<le> length buf \<Longrightarrow>
   \<exists>bs. buf' = store buf (nat tot) (map Rnd bs) \<and> nat tot + length bs \<le> len \<and>
        (tot' = - 1 \<and> nat tot + length bs < len \<or> tot' = tot + int (length bs))"
proof (induction w buf len tot arbitrary: buf' tot' w' rule: urandom_loop.induct)
  case (1 w buf len tot)
  show ?case
  proof (cases "tot < int len")
    case False
    with "1.prems" show ?thesis
      by (auto simp: urandom_loop.simps[of w] store_nil intro!: exI[of _ "[]"])
  next
    case True
    obtain r w1 where sr: "sys_read w (len - nat tot) = (r, w1)" by (cases "sys_read w (len - nat tot)")
    show ?thesis
    proof (cases r)
      case (Fail e)
      show ?thesis
      proof (cases "e = EINTR")
        case eintr: True
        with True sr Fail "1.prems" have "urandom_loop w1 buf len tot = (buf', tot', w')"
          by (simp add: urandom_loop.simps[of w])
        from "1.IH"(1)[OF True sr[symmetric] Fail eintr this "1.prems"(2,3,4)] show ?thesis .
      next
        case False
        with True sr Fail "1.prems" show ?thesis
          by (auto simp: urandom_loop.simps[of w] store_nil intro!: exI[of _ "[]"])
      qed
    next
      case (Ok bs)
      have len: "length bs \<le> len - nat tot" using sr Ok
        by (auto simp: sys_read_def split: list.splits sysres.splits)
      show ?thesis
      proof (cases "bs = []")
        case empty: True
        with True sr Ok "1.prems" show ?thesis
          by (auto simp: urandom_loop.simps[of w] store_nil intro!: exI[of _ "[]"])
      next
        case False
        from False True sr Ok "1.prems" have rec: "urandom_loop w1 (store buf (nat tot) (map Rnd bs)) len (tot + int (length bs)) = (buf', tot', w')"
          by (simp add: urandom_loop.simps[of w])
        have a: "0 \<le> tot + int (length bs)" using "1.prems" by simp
        have b: "tot + int (length bs) \<le> int len" using len True "1.prems" by linarith
        have c: "len \<le> length (store buf (nat tot) (map Rnd bs))"
          using len True "1.prems" by (simp add: store_length)
        from "1.IH"(2)[OF True sr[symmetric] Ok False rec a b c]
        obtain cs where cs: "buf' = store (store buf (nat tot) (map Rnd bs)) (nat (tot + int (length bs))) (map Rnd cs)"
          "nat (tot + int (length bs)) + length cs \<le> len"
          "tot' = - 1 \<and> nat (tot + int (length bs)) + length cs < len \<or> tot' = tot + int (length bs) + int (length cs)"
          by blast
        have n: "nat (tot + int (length bs)) = nat tot + length bs" using "1.prems" by (simp add: nat_add_distrib)
        have "nat tot + length (map Rnd bs) \<le> length buf" using len True "1.prems" by simp
        then have "buf' = store buf (nat tot) (map Rnd (bs @ cs))"
          using cs(1) n store_store[of "nat tot" "map Rnd bs" buf "map Rnd cs"] by simp
        moreover have "nat tot + length (bs @ cs) \<le> len" using cs(2) n by simp
        moreover have "tot' = - 1 \<and> nat tot + length (bs @ cs) < len \<or> tot' = tot + int (length (bs @ cs))"
          using cs(3) n by auto
        ultimately show ?thesis by blast
      qed
    qed
  qed
qed



lemma store0_cover: "length a \<le> length b \<Longrightarrow> store (store c 0 a) 0 b = store c 0 b"
  by (simp add: store_def)

lemma store0_take: "take (length d) (store c 0 d) = d"
  by (simp add: store_def)

lemma fill_random_cases:
  assumes fr: "fill_random w buf len = (ret, buf', w')" and le: "len \<le> length buf"
  shows "(\<exists>bs. ret = int len \<and> length bs = len \<and> buf' = store buf 0 (map Rnd bs)) \<or>
         (- 1 \<le> ret \<and> ret < int len \<and> (\<exists>bs. length bs < len \<and> buf' = store buf 0 (map Rnd bs)))"
proof -
  obtain buf1 left w1 where gl: "getrandom_loop w buf 0 len = (buf1, left, w1)"
    by (cases "getrandom_loop w buf 0 len")
  from getrandom_loop_store[OF gl] le obtain bs1 where
    b1: "buf1 = store buf 0 (map Rnd bs1)" "length bs1 + left = len" by auto
  show ?thesis
  proof (cases "left = 0")
    case True
    with fr gl b1 show ?thesis by (auto simp: fill_random_def)
  next
    case False
    then have short1: "length bs1 < len" using b1(2) by simp
    obtain r w2 where so: "sys_simple SC_open_urandom w1 = (r, w2)"
      by (cases "sys_simple SC_open_urandom w1")
    show ?thesis
    proof (cases r)
      case (Fail e)
      with fr gl so False have "ret = - 1" "buf' = buf1" by (auto simp: fill_random_def)
      with b1 short1 show ?thesis by auto
    next
      case (Ok u)
      obtain buf2 tot w3 where ul: "urandom_loop w2 buf1 len 0 = (buf2, tot, w3)"
        by (cases "urandom_loop w2 buf1 len 0")
      have l1: "len \<le> length buf1" using b1 le short1 by (simp add: store_length)
      from urandom_loop_store[OF ul _ _ l1] obtain bs2 where
        b2: "buf2 = store buf1 0 (map Rnd bs2)" "length bs2 \<le> len"
            "tot = - 1 \<and> length bs2 < len \<or> tot = int (length bs2)" by auto
      from fr gl so Ok False ul have res: "ret = tot" "buf' = buf2" by (auto simp: fill_random_def)
      show ?thesis
      proof (cases "length bs2 = len")
        case True
        then have "buf2 = store buf 0 (map Rnd bs2)"
          using b1(1) b2(1) short1 store0_cover[of "map Rnd bs1" "map Rnd bs2" buf] by simp
        with res b2 True show ?thesis by auto
      next
        case ne: False
        then have short2: "length bs2 < len" using b2(2) by simp
        have "\<exists>bs. length bs < len \<and> buf2 = store buf 0 (map Rnd bs)"
        proof (cases "length bs1 \<le> length bs2")
          case True
          then have "buf2 = store buf 0 (map Rnd bs2)"
            using b1(1) b2(1) store0_cover[of "map Rnd bs1" "map Rnd bs2" buf] by simp
          with short2 show ?thesis by blast
        next
          case False
          then have "buf2 = store buf 0 (map Rnd (bs2 @ drop (length bs2) bs1))"
            using b1(1) b2(1) by (simp add: store_def drop_map)
          moreover have "length (bs2 @ drop (length bs2) bs1) < len" using False short1 by simp
          ultimately show ?thesis by blast
        qed
        with res b2(3) short2 show ?thesis by auto
      qed
    qed
  qed
qed






lemma hex2_length: "length (concat (map hex2 bs)) = 2 * length bs"
  by (induction bs) (simp_all add: hex2_def)

lemma hexdigit_in: "n < 16 \<Longrightarrow> hexdigit n \<in> set ''0123456789abcdef''"
  unfolding hexdigit_def by (rule nth_mem) simp

lemma hex2_set: "set (hex2 b) \<subseteq> set ''0123456789abcdef''"
proof -
  define S where "S = set ''0123456789abcdef''"
  have "unat b < 256" using unsigned_less[of b] by simp
  then have "unat b div 16 < 16" "unat b mod 16 < 16" by simp_all
  then have "hexdigit (unat b div 16) \<in> S" "hexdigit (unat b mod 16) \<in> S"
    unfolding S_def using hexdigit_in by blast+
  then have "set (hex2 b) \<subseteq> S" by (simp add: hex2_def)
  then show ?thesis unfolding S_def .
qed

lemma hex2_concat_set: "set (concat (map hex2 bs)) \<subseteq> set ''0123456789abcdef''"
proof -
  define S where "S = set ''0123456789abcdef''"
  have "\<And>b. set (hex2 b) \<subseteq> S" unfolding S_def by (rule hex2_set)
  then have "set (concat (map hex2 bs)) \<subseteq> S" by (induction bs) auto
  then show ?thesis unfolding S_def .
qed

lemma map_nth_upt_take: "n \<le> length xs \<Longrightarrow> map (\<lambda>i. f (xs ! i)) [0 ..< n] = map f (take n xs)"
  by (rule nth_equalityI) simp_all

lemma hexdigit_inj: "i < 16 \<Longrightarrow> j < 16 \<Longrightarrow> hexdigit i = hexdigit j \<Longrightarrow> i = j"
proof -
  assume a: "i < 16" "j < 16" "hexdigit i = hexdigit j"
  have d: "distinct ''0123456789abcdef''" by simp
  have l: "length ''0123456789abcdef'' = 16" by simp
  from a l nth_eq_iff_index_eq[OF d, of i j] show "i = j" by (simp add: hexdigit_def)
qed

lemma hex2_inj: "hex2 a = hex2 b \<Longrightarrow> a = b"
proof -
  assume e: "hex2 a = hex2 b"
  have la: "unat a < 256" and lb: "unat b < 256"
    using unsigned_less[of a] unsigned_less[of b] by simp_all
  then have "unat a div 16 < 16" "unat a mod 16 < 16" "unat b div 16 < 16" "unat b mod 16 < 16"
    by simp_all
  with e hexdigit_inj have "unat a div 16 = unat b div 16" "unat a mod 16 = unat b mod 16"
    by (auto simp: hex2_def)
  then have "unat a = unat b" by (metis div_mult_mod_eq)
  then show "a = b" by (rule word_unat_eq_iff[THEN iffD2])
qed

lemma hex2_concat_inj:
  "length xs = length ys \<Longrightarrow> concat (map hex2 xs) = concat (map hex2 ys) \<Longrightarrow> xs = ys"
proof (induction xs ys rule: list_induct2)
  case Nil
  show ?case by simp
next
  case (Cons x xs y ys)
  have "length (hex2 x) = length (hex2 y)" by (simp add: hex2_def)
  with Cons.prems have "hex2 x = hex2 y" "concat (map hex2 xs) = concat (map hex2 ys)"
    by simp_all
  with Cons.IH hex2_inj show ?case by simp
qed

text \<open>
  C1, as amended. When \<^verbatim>\<open>random_filename_in_dir\<close> succeeds, 16 bytes were drawn from the
  random source, and the result is the directory of the path, a slash, and a basename of 16
  lowercase hexadecimal digits: the rendering of the first 8 of the 16 bytes, which it
  determines (64 bits).
\<close>

theorem random_filename_shape:
  assumes rf: "random_filename_in_dir dn w orig_path = (Some out, w')"
  shows "\<exists>bs w2. fill_random (snd (sys_simple SC_malloc w)) (replicate 16 (Stale 0)) 16 = (16, map Rnd bs, w2) \<and>
           length bs = 16 \<and>
           out = dn orig_path @ ''/'' @ concat (map hex2 (take 8 bs)) \<and>
           length (concat (map hex2 (take 8 bs))) = 16 \<and>
           set (concat (map hex2 (take 8 bs))) \<subseteq> set ''0123456789abcdef'' \<and>
           (\<forall>bs'. length bs' = 8 \<and> concat (map hex2 bs') = concat (map hex2 (take 8 bs)) \<longrightarrow>
              bs' = take 8 bs)"
proof -
  obtain r1 w1 where m1: "sys_simple SC_malloc w = (r1, w1)" by (cases "sys_simple SC_malloc w")
  obtain r rndbuf w2 where fr: "fill_random w1 (replicate 16 (Stale 0)) 16 = (r, rndbuf, w2)"
    by (cases "fill_random w1 (replicate 16 (Stale 0)) 16")
  from rf m1 fr have r16: "r = 16"
    by (auto simp: random_filename_in_dir_def Let_def split: sysres.splits if_splits prod.splits)
  from rf m1 fr r16 have out: "out = dn orig_path @ ''/'' @
      take 16 (concat (map (\<lambda>i. hex2 (byte_of (rndbuf ! i))) [0 ..< 16 div 2]))"
    by (auto simp: random_filename_in_dir_def Let_def split: sysres.splits if_splits prod.splits)
  from fill_random_cases[OF fr] r16 obtain bs where
    bs: "length bs = 16" "rndbuf = store (replicate 16 (Stale 0)) 0 (map Rnd bs)" by auto
  then have rb: "rndbuf = map Rnd bs" by (simp add: store_def)
  have "map (\<lambda>i. hex2 (byte_of (rndbuf ! i))) [0 ..< 16 div 2] = map hex2 (take 8 bs)"
  proof -
    have "map (\<lambda>i. hex2 (byte_of (rndbuf ! i))) [0 ..< 8] = map (\<lambda>c. hex2 (byte_of c)) (take 8 rndbuf)"
      using bs(1) rb by (intro map_nth_upt_take) simp
    also have "\<dots> = map hex2 (take 8 bs)" by (simp add: rb take_map)
    finally show ?thesis by simp
  qed
  moreover have l16: "length (concat (map hex2 (take 8 bs))) = 16"
    using bs(1) by (simp add: hex2_length)
  ultimately have "out = dn orig_path @ ''/'' @ concat (map hex2 (take 8 bs))"
    using out by simp
  moreover have "\<forall>bs'. length bs' = 8 \<and> concat (map hex2 bs') = concat (map hex2 (take 8 bs)) \<longrightarrow>
      bs' = take 8 bs"
    using bs(1) hex2_concat_inj[of _ "take 8 bs"] by simp
  ultimately show ?thesis
    using m1 fr r16 rb bs(1) l16 hex2_concat_set[of "take 8 bs"] by auto
qed

lemma w_c1_run:
  "fst (random_filename_in_dir dirname_glibc w_c1 ''/tmp/secret.txt'') = Some ''/tmp/0001020304050607''"
  by code_simp

theorem random_filename_shape_witness:
  "fst (random_filename_in_dir dirname_glibc w_c1 ''/tmp/secret.txt'') = Some ''/tmp/0001020304050607'' \<and>
   (\<exists>bs. length bs = 16 \<and>
      ''/tmp/0001020304050607'' = dirname_glibc ''/tmp/secret.txt'' @ ''/'' @ concat (map hex2 (take 8 bs)) \<and>
      length (concat (map hex2 (take 8 bs))) = 16)"
proof -
  have run: "random_filename_in_dir dirname_glibc w_c1 ''/tmp/secret.txt'' =
      (Some ''/tmp/0001020304050607'', snd (random_filename_in_dir dirname_glibc w_c1 ''/tmp/secret.txt''))"
    using w_c1_run by (simp add: prod_eq_iff)
  from random_filename_shape[OF run] w_c1_run show ?thesis by blast
qed

text \<open>The specification asks for 32 characters; the basename has 16.\<close>

theorem random_filename_not_32_chars:
  "fst (random_filename_in_dir dirname_glibc w_c1 ''/tmp/secret.txt'') = Some (''/tmp'' @ ''/'' @ ''0001020304050607'')
   \<and> length ''0001020304050607'' \<noteq> (32::nat)"
  using w_c1_run by simp

section \<open>The passes\<close>

lemma hits_Nil: "hits P [] = 0"
  by (simp add: hits_def)

lemma hits_append: "hits P (a @ b) = hits P a + hits P b"
  by (simp add: hits_def)

lemma hits_Cons: "hits P (e # ev) = (if P e then 1 else 0) + hits P ev"
  by (simp add: hits_def)

lemma hits_single: "hits P [e] = (if P e then 1 else 0)"
  by (simp add: hits_def)

lemma hits_none: "list_all (\<lambda>e. \<not> P e) ev \<Longrightarrow> hits P ev = 0"
  by (induction ev) (simp_all add: hits_def)

lemma urandom_quiet: "urandom_event e \<Longrightarrow> quiet_event e"
  by (cases e) (auto simp: urandom_event_def)

lemma quiet_engine: "quiet_event e \<Longrightarrow> engine_event L e"
  by (cases e) auto

lemma quiet_silent:
  "quiet_event e \<Longrightarrow> \<not> covers k e \<and> \<not> rnd_at k e \<and> \<not> zero_at k e \<and> \<not> is_memset e \<and> \<not> is_write e"
  by (cases e) auto

lemma quiet_events_silent:
  assumes "list_all quiet_event ev"
  shows "hits (covers k) ev = 0" "hits (rnd_at k) ev = 0" "hits (zero_at k) ev = 0"
    "hits is_memset ev = 0" "hits is_write ev = 0" "list_all (engine_event L) ev"
  using assms by (induction ev) (auto simp: hits_def quiet_silent quiet_engine)

lemma quiet_refl: "quiet w w"
  by (simp add: quiet_def)

lemma quiet_trans: "quiet w w1 \<Longrightarrow> quiet w1 w2 \<Longrightarrow> quiet w w2"
  by (auto simp: quiet_def)

lemma rnd_frame_quiet: "rnd_frame w w' \<Longrightarrow> quiet w w'"
  by (auto simp: rnd_frame_def quiet_def list_all_iff urandom_quiet)

lemma quiet_warn: "quiet w (warn verbose m w)"
  by (simp add: quiet_def warn_def emit_def)

lemma quiet_close_fd: "quiet w (close_fd w)"
  by (simp add: quiet_def close_fd_def sys_simple_def emit_def split: list.splits)

lemma quiet_fail: "quiet w w1 \<Longrightarrow> quiet w (close_fd (warn verbose m w1))"
  by (blast intro: quiet_trans quiet_warn quiet_close_fd)

lemma sys_write_Ok:
  assumes "sys_write w fd d = (Ok n, w')"
  shows "\<exists>c. fs w fd = Some (Reg c) \<and> n \<le> length d \<and>
           trace w' = trace w @ [Ev_write (fd_pos w) (take n d)] \<and>
           fs w' = (fs w)(fd \<mapsto> Reg (store c (fd_pos w) (take n d))) \<and>
           fd_pos w' = fd_pos w + n"
  using assms
  by (auto simp: sys_write_def emit_def min_def
      split: list.splits sysres.splits option.splits node.splits)

lemma sys_write_Fail:
  assumes "sys_write w fd d = (Fail e, w')"
  shows "fs w' = fs w \<and> fd_pos w' = fd_pos w \<and> trace w' = trace w"
  using assms
  by (auto simp: sys_write_def emit_def split: list.splits sysres.splits option.splits node.splits)

lemma sys_write_Fail_quiet: "sys_write w fd d = (Fail e, w') \<Longrightarrow> quiet w w'"
  using sys_write_Fail[of w fd d e w'] by (simp add: quiet_def)

lemma pass_post_quiet:
  "quiet w w' \<Longrightarrow> fs w fd = Some (Reg c) \<Longrightarrow> length c = L \<Longrightarrow>
   \<exists>ev. pass_post L fd w w' ev \<and> list_all quiet_event ev"
  by (auto simp: quiet_def pass_post_def quiet_events_silent(6) map_upd_triv intro!: exI[of _ c])

lemma fill_random_buf:
  assumes "fill_random w buf n = (r, buf1, w1)" "n \<le> length buf"
  shows "length buf1 = length buf \<and> (r = int n \<longrightarrow> (\<exists>bs. length bs = n \<and> take n buf1 = map Rnd bs))"
proof -
  from fill_random_cases[OF assms] consider
    (ok) bs where "r = int n" "length bs = n" "buf1 = store buf 0 (map Rnd bs)"
  | (bad) bs where "r < int n" "length bs < n" "buf1 = store buf 0 (map Rnd bs)"
    by blast
  then show ?thesis
  proof cases
    case ok
    then have "take n buf1 = map Rnd bs" by (simp add: store_def)
    with ok assms(2) show ?thesis by (auto simp: store_length)
  next
    case bad
    with assms(2) show ?thesis by (simp add: store_length)
  qed
qed

lemma random_pass_loop_shape:
  assumes "random_pass_loop verbose fd L bufsize w buf t = (ok, buf', w')"
    and "fs w fd = Some (Reg c)" and "length c = L" and "fd_pos w = t" and "t \<le> L"
    and "bufsize \<le> length buf"
  shows "\<exists>ev. pass_post L fd w w' ev \<and> length buf' = length buf \<and>
           hits is_memset ev = 0 \<and> (\<forall>k. hits (zero_at k) ev = 0) \<and>
           (ok \<longrightarrow> fd_pos w' = L \<and>
              (\<forall>k. hits (covers k) ev = (if t \<le> k \<and> k < L then 1 else 0)) \<and>
              (\<forall>k. hits (rnd_at k) ev = (if t \<le> k \<and> k < L then 1 else 0)))"
  using assms
proof (induction "length (q_write w)" arbitrary: w buf t c ok buf' w' rule: less_induct)
  case less
  note run = less.prems(1) and fsw = less.prems(2) and lc = less.prems(3)
    and pos = less.prems(4) and tL = less.prems(5) and bl = less.prems(6)
  show ?case
  proof (cases "t < L")
    case False
    with run have res: "ok" "buf' = buf" "w' = w"
      by (simp_all add: random_pass_loop.simps[of verbose fd L bufsize w])
    have "pass_post L fd w w []" using fsw lc
      by (auto simp: pass_post_def map_upd_triv intro!: exI[of _ c])
    moreover have "t = L" using False tL by simp
    ultimately show ?thesis using res pos
      by (intro exI[of _ "[]"]) (simp add: hits_Nil)
  next
    case True
    define towrite where "towrite = (if L - t < bufsize then L - t else bufsize)"
    have tw: "towrite \<le> L - t" "towrite \<le> length buf" using bl by (auto simp: towrite_def)
    obtain r buf1 w1 where fr: "fill_random w buf towrite = (r, buf1, w1)"
      by (cases "fill_random w buf towrite")
    from fill_random_frame[OF fr] have q1: "quiet w w1" and qw1: "q_write w1 = q_write w"
      by (simp_all add: rnd_frame_quiet rnd_frame_def)
    from fill_random_buf[OF fr tw(2)] have lb: "length buf1 = length buf"
      and rb: "r = int towrite \<longrightarrow> (\<exists>bs. length bs = towrite \<and> take towrite buf1 = map Rnd bs)"
      by simp_all
    show ?thesis
    proof (cases "r = int towrite")
      case False
      with True fr run have res: "\<not> ok" "buf' = buf1"
        "w' = close_fd (warn verbose Msg_random_failed w1)"
        by (simp_all add: random_pass_loop.simps[of verbose fd L bufsize w] towrite_def)
      from pass_post_quiet[OF quiet_fail[OF q1] fsw lc] res
      obtain ev where "pass_post L fd w w' ev" "list_all quiet_event ev" by auto
      then show ?thesis using res lb quiet_events_silent[of ev] by auto
    next
      case rok: True
      obtain bs where bs: "length bs = towrite" "take towrite buf1 = map Rnd bs"
        using rb rok by blast
      obtain x w2 where sw: "sys_write w1 fd (map Rnd bs) = (x, w2)"
        by (cases "sys_write w1 fd (map Rnd bs)")
      from q1 obtain ev1 where ev1: "trace w1 = trace w @ ev1" "list_all quiet_event ev1"
        and fs1: "fs w1 = fs w" and pos1: "fd_pos w1 = t"
        using pos by (auto simp: quiet_def)
      note s1 = quiet_events_silent[OF ev1(2)]
      show ?thesis
      proof (cases x)
        case (Fail e)
        from sys_write_Fail_quiet[OF sw[unfolded Fail]] q1 have q2: "quiet w w2"
          by (blast intro: quiet_trans)
        show ?thesis
        proof (cases "e = EINTR")
          case False
          with True fr rok sw Fail bs run have res: "\<not> ok" "buf' = buf1"
            "w' = close_fd (warn verbose (Perror ''write'') w2)"
            by (simp_all add: random_pass_loop.simps[of verbose fd L bufsize w] towrite_def)
          from pass_post_quiet[OF quiet_fail[OF q2] fsw lc] res
          obtain ev where "pass_post L fd w w' ev" "list_all quiet_event ev" by auto
          then show ?thesis using res lb quiet_events_silent[of ev] by auto
        next
          case eintr: True
          with True fr rok sw Fail bs run have rec:
            "random_pass_loop verbose fd L bufsize w2 buf1 t = (ok, buf', w')"
            by (simp add: random_pass_loop.simps[of verbose fd L bufsize w] towrite_def)
          have shr: "length (q_write w2) < length (q_write w)"
            using sys_write_shrinks[OF sw] Fail eintr qw1 by simp
          from q2 obtain ev2 where ev2: "trace w2 = trace w @ ev2" "list_all quiet_event ev2"
            and fs2: "fs w2 = fs w" and pos2: "fd_pos w2 = t"
            using pos by (auto simp: quiet_def)
          note s2 = quiet_events_silent[OF ev2(2)]
          have "fs w2 fd = Some (Reg c)" using fs2 fsw by simp
          from less.hyps[OF shr rec this lc pos2 tL] bl lb
          obtain ev where ev: "pass_post L fd w2 w' ev" "length buf' = length buf1"
            "hits is_memset ev = 0" "\<forall>k. hits (zero_at k) ev = 0"
            "ok \<longrightarrow> fd_pos w' = L \<and>
              (\<forall>k. hits (covers k) ev = (if t \<le> k \<and> k < L then 1 else 0)) \<and>
              (\<forall>k. hits (rnd_at k) ev = (if t \<le> k \<and> k < L then 1 else 0))"
            by auto
          have "pass_post L fd w w' (ev2 @ ev)"
            using ev(1) ev2 fs2 s2(6)[of L] by (auto simp: pass_post_def)
          then show ?thesis using ev lb s2
            by (intro exI[of _ "ev2 @ ev"]) (simp add: hits_append)
        qed
      next
        case (Ok n)
        from sys_write_Ok[OF sw[unfolded Ok]] fs1 fsw pos1 bs(1)
        have n: "n \<le> towrite"
          and tr2: "trace w2 = trace w1 @ [Ev_write t (map Rnd (take n bs))]"
          and fs2: "fs w2 = (fs w)(fd \<mapsto> Reg (store c t (map Rnd (take n bs))))"
          and pos2: "fd_pos w2 = t + n"
          by (auto simp: take_map)
        from True fr rok sw Ok bs run have rec:
          "random_pass_loop verbose fd L bufsize w2 buf1 (t + n) = (ok, buf', w')"
          by (simp add: random_pass_loop.simps[of verbose fd L bufsize w] towrite_def)
        have shr: "length (q_write w2) < length (q_write w)"
          using sys_write_shrinks[OF sw] Ok qw1 by simp
        have tn: "t + n \<le> L" using n tw(1) True by simp
        have ln: "length (take n bs) = n" using n bs(1) by simp
        define c2 where "c2 = store c t (map Rnd (take n bs))"
        have lc2: "length c2 = L" using lc tn ln by (simp add: c2_def store_length)
        have fsc2: "fs w2 fd = Some (Reg c2)" using fs2 by (simp add: c2_def)
        from less.hyps[OF shr rec fsc2 lc2 pos2 tn] bl lb
        obtain ev where ev: "pass_post L fd w2 w' ev" "length buf' = length buf1"
          "hits is_memset ev = 0" "\<forall>k. hits (zero_at k) ev = 0"
          "ok \<longrightarrow> fd_pos w' = L \<and>
            (\<forall>k. hits (covers k) ev = (if t + n \<le> k \<and> k < L then 1 else 0)) \<and>
            (\<forall>k. hits (rnd_at k) ev = (if t + n \<le> k \<and> k < L then 1 else 0))"
          by auto
        define e where "e = Ev_write t (map Rnd (take n bs))"
        have e_props: "engine_event L e" "\<not> is_memset e" "\<And>k. \<not> zero_at k e"
          "\<And>k. covers k e \<longleftrightarrow> t \<le> k \<and> k < t + n"
          "\<And>k. rnd_at k e \<longleftrightarrow> t \<le> k \<and> k < t + n"
          using tn ln by (auto simp: e_def)
        have "pass_post L fd w w' (ev1 @ e # ev)"
          using ev(1) ev1 tr2 fs2 s1(6)[of L] e_props(1)
          by (auto simp: pass_post_def e_def)
        moreover have "hits is_memset (ev1 @ e # ev) = 0"
          and "\<forall>k. hits (zero_at k) (ev1 @ e # ev) = 0"
          using ev(3,4) s1 e_props hits_append[of _ "[e]" ev] 
          by (simp_all add: hits_append[of _ ev1] hits_append[of _ "[e]" ev, simplified] hits_single)
        moreover have "ok \<longrightarrow> fd_pos w' = L \<and>
            (\<forall>k. hits (covers k) (ev1 @ e # ev) = (if t \<le> k \<and> k < L then 1 else 0)) \<and>
            (\<forall>k. hits (rnd_at k) (ev1 @ e # ev) = (if t \<le> k \<and> k < L then 1 else 0))"
          using ev(5) s1 e_props tn
          by (auto simp: hits_append[of _ ev1] hits_append[of _ "[e]" ev, simplified] hits_single)
        ultimately show ?thesis using ev(2) lb by (intro exI[of _ "ev1 @ e # ev"]) simp
      qed
    qed
  qed
qed

lemma pass_post_trans:
  "pass_post L fd w w1 ev1 \<Longrightarrow> pass_post L fd w1 w2 ev2 \<Longrightarrow> pass_post L fd w w2 (ev1 @ ev2)"
  by (auto simp: pass_post_def)

lemma pass_post_file:
  "pass_post L fd w w' ev \<Longrightarrow> \<exists>c'. fs w' fd = Some (Reg c') \<and> length c' = L"
  by (auto simp: pass_post_def)

lemma zero_pass_loop_shape:
  assumes "zero_pass_loop verbose fd L bufsize w buf t = (ok, w')"
    and "fs w fd = Some (Reg c)" and "length c = L" and "fd_pos w = t" and "t \<le> L"
    and "buf = replicate bufsize Zeroed"
  shows "\<exists>ev. pass_post L fd w w' ev \<and>
           hits is_memset ev = 0 \<and> (\<forall>k. hits (rnd_at k) ev = 0) \<and>
           (ok \<longrightarrow> fd_pos w' = L \<and>
              (\<forall>k. hits (covers k) ev = (if t \<le> k \<and> k < L then 1 else 0)) \<and>
              (\<forall>k. hits (zero_at k) ev = (if t \<le> k \<and> k < L then 1 else 0)))"
  using assms(1-5)
proof (induction "length (q_write w)" arbitrary: w t c ok w' rule: less_induct)
  case less
  note run = less.prems(1) and fsw = less.prems(2) and lc = less.prems(3)
    and pos = less.prems(4) and tL = less.prems(5)
  show ?case
  proof (cases "t < L")
    case False
    with run have res: "ok" "w' = w"
      by (simp_all add: zero_pass_loop.simps[of verbose fd L bufsize w])
    have "pass_post L fd w w []" using fsw lc
      by (auto simp: pass_post_def map_upd_triv intro!: exI[of _ c])
    moreover have "t = L" using False tL by simp
    ultimately show ?thesis using res pos
      by (intro exI[of _ "[]"]) (simp add: hits_Nil)
  next
    case True
    define towrite where "towrite = (if L - t < bufsize then L - t else bufsize)"
    have tw: "towrite \<le> L - t" "towrite \<le> bufsize" by (auto simp: towrite_def)
    have tk: "take towrite buf = replicate towrite Zeroed" using tw(2) assms(6) by simp
    obtain x w2 where sw: "sys_write w fd (replicate towrite Zeroed) = (x, w2)"
      by (cases "sys_write w fd (replicate towrite Zeroed)")
    show ?thesis
    proof (cases x)
      case (Fail e)
      from sys_write_Fail_quiet[OF sw[unfolded Fail]] have q2: "quiet w w2" .
      show ?thesis
      proof (cases "e = EINTR")
        case False
        with True sw Fail tk run have res: "\<not> ok"
          "w' = close_fd (warn verbose (Perror ''write'') w2)"
          by (simp_all add: zero_pass_loop.simps[of verbose fd L bufsize w] towrite_def)
        from pass_post_quiet[OF quiet_fail[OF q2] fsw lc] res
        obtain ev where "pass_post L fd w w' ev" "list_all quiet_event ev" by auto
        then show ?thesis using res quiet_events_silent[of ev] by auto
      next
        case eintr: True
        with True sw Fail tk run have rec:
          "zero_pass_loop verbose fd L bufsize w2 buf t = (ok, w')"
          by (simp add: zero_pass_loop.simps[of verbose fd L bufsize w] towrite_def)
        have shr: "length (q_write w2) < length (q_write w)"
          using sys_write_shrinks[OF sw] Fail eintr by simp
        from q2 obtain ev2 where ev2: "trace w2 = trace w @ ev2" "list_all quiet_event ev2"
          and fs2: "fs w2 = fs w" and pos2: "fd_pos w2 = t"
          using pos by (auto simp: quiet_def)
        note s2 = quiet_events_silent[OF ev2(2)]
        have "fs w2 fd = Some (Reg c)" using fs2 fsw by simp
        from less.hyps[OF shr rec this lc pos2 tL]
        obtain ev where ev: "pass_post L fd w2 w' ev"
          "hits is_memset ev = 0" "\<forall>k. hits (rnd_at k) ev = 0"
          "ok \<longrightarrow> fd_pos w' = L \<and>
            (\<forall>k. hits (covers k) ev = (if t \<le> k \<and> k < L then 1 else 0)) \<and>
            (\<forall>k. hits (zero_at k) ev = (if t \<le> k \<and> k < L then 1 else 0))"
          by auto
        have "pass_post L fd w w' (ev2 @ ev)"
          using ev(1) ev2 fs2 s2(6)[of L] by (auto simp: pass_post_def)
        then show ?thesis using ev s2
          by (intro exI[of _ "ev2 @ ev"]) (simp add: hits_append)
      qed
    next
      case (Ok n)
      from sys_write_Ok[OF sw[unfolded Ok]] fsw pos
      have n: "n \<le> towrite"
        and tr2: "trace w2 = trace w @ [Ev_write t (replicate n Zeroed)]"
        and fs2: "fs w2 = (fs w)(fd \<mapsto> Reg (store c t (replicate n Zeroed)))"
        and pos2: "fd_pos w2 = t + n"
        by (auto simp: min_def)
      from True sw Ok tk run have rec:
        "zero_pass_loop verbose fd L bufsize w2 buf (t + n) = (ok, w')"
        by (simp add: zero_pass_loop.simps[of verbose fd L bufsize w] towrite_def)
      have shr: "length (q_write w2) < length (q_write w)"
        using sys_write_shrinks[OF sw] Ok by simp
      have tn: "t + n \<le> L" using n tw(1) True by simp
      define c2 where "c2 = store c t (replicate n Zeroed)"
      have lc2: "length c2 = L" using lc tn by (simp add: c2_def store_length)
      have fsc2: "fs w2 fd = Some (Reg c2)" using fs2 by (simp add: c2_def)
      from less.hyps[OF shr rec fsc2 lc2 pos2 tn]
      obtain ev where ev: "pass_post L fd w2 w' ev"
        "hits is_memset ev = 0" "\<forall>k. hits (rnd_at k) ev = 0"
        "ok \<longrightarrow> fd_pos w' = L \<and>
          (\<forall>k. hits (covers k) ev = (if t + n \<le> k \<and> k < L then 1 else 0)) \<and>
          (\<forall>k. hits (zero_at k) ev = (if t + n \<le> k \<and> k < L then 1 else 0))"
        by auto
      define e where "e = Ev_write t (replicate n Zeroed)"
      have e_props: "engine_event L e" "\<not> is_memset e" "\<And>k. \<not> rnd_at k e"
        "\<And>k. covers k e \<longleftrightarrow> t \<le> k \<and> k < t + n"
        "\<And>k. zero_at k e \<longleftrightarrow> t \<le> k \<and> k < t + n"
        using tn by (auto simp: e_def)
      have "pass_post L fd w w' (e # ev)"
        using ev(1) tr2 fs2 e_props(1) by (auto simp: pass_post_def e_def)
      moreover have "hits is_memset (e # ev) = 0"
        and "\<forall>k. hits (rnd_at k) (e # ev) = 0"
        using ev(2,3) e_props
        by (simp_all add: hits_append[of _ "[e]" ev, simplified] hits_single)
      moreover have "ok \<longrightarrow> fd_pos w' = L \<and>
          (\<forall>k. hits (covers k) (e # ev) = (if t \<le> k \<and> k < L then 1 else 0)) \<and>
          (\<forall>k. hits (zero_at k) (e # ev) = (if t \<le> k \<and> k < L then 1 else 0))"
        using ev(4) e_props tn
        by (auto simp: hits_append[of _ "[e]" ev, simplified] hits_single)
      ultimately show ?thesis by (intro exI[of _ "e # ev"]) simp
    qed
  qed
qed

lemma sys_lseek0_Fail: "sys_lseek0 w fd = (Fail e, w') \<Longrightarrow> quiet w w'"
  by (auto simp: sys_lseek0_def sys_simple_def quiet_def emit_def split: list.splits sysres.splits)

lemma sys_lseek0_Ok:
  "sys_lseek0 w fd = (Ok u, w') \<Longrightarrow>
   fs w' = fs w \<and> fd_pos w' = 0 \<and> (\<exists>ev. trace w' = trace w @ ev \<and> list_all quiet_event ev)"
  by (auto simp: sys_lseek0_def sys_simple_def emit_def split: list.splits sysres.splits)

lemma sync_and_check_checkpoints:
  "sync_and_check d fd = (s, d1) \<Longrightarrow>
   checkpoints (if s \<noteq> 0 then sync_warn verbose m d1 else d1) = checkpoints d + 1"
  by (auto simp: sync_and_check_def sys_fdatasync_def sys_fsync_def sync_warn_def checkpoints_def
      split: list.splits sysres.splits)

lemma seek_then_pass:
  assumes "sys_lseek0 (warn verbose m w) fd = (Ok u, w1)" "fs w fd = Some (Reg c)" "length c = L"
  shows "fs w1 fd = Some (Reg c) \<and> fd_pos w1 = 0 \<and>
         (\<exists>ev. pass_post L fd w w1 ev \<and> list_all quiet_event ev)"
proof -
  from sys_lseek0_Ok[OF assms(1)] quiet_warn[of w verbose m]
  obtain ev where "trace w1 = trace w @ ev" "list_all quiet_event ev" "fs w1 = fs w" "fd_pos w1 = 0"
    by (auto simp: quiet_def)
  then show ?thesis using assms(2,3)
    by (auto simp: pass_post_def quiet_events_silent(6) map_upd_triv intro!: exI[of _ c])
qed

lemma seek_failed:
  assumes "sys_lseek0 (warn verbose m w) fd = (Fail e, w1)" "fs w fd = Some (Reg c)" "length c = L"
  shows "\<exists>ev. pass_post L fd w (close_fd (warn verbose m' w1)) ev \<and> list_all quiet_event ev"
proof -
  have "quiet w w1" using sys_lseek0_Fail[OF assms(1)] quiet_warn[of w verbose m]
    by (blast intro: quiet_trans)
  from pass_post_quiet[OF quiet_fail[OF this] assms(2,3)] show ?thesis .
qed

lemma pass_loop_shape:
  assumes "pass_loop verbose path fd L bufsize passes w d buf pass = (ok, buf', w', d')"
    and "fs w fd = Some (Reg c)" and "length c = L" and "bufsize \<le> length buf"
  shows "\<exists>ev. pass_post L fd w w' ev \<and> length buf' = length buf \<and>
           hits is_memset ev = 0 \<and> (\<forall>k. hits (zero_at k) ev = 0) \<and>
           (ok \<longrightarrow> checkpoints d' = checkpoints d + nat (passes + 1 - pass) \<and>
              (\<forall>k. hits (covers k) ev = (if k < L then nat (passes + 1 - pass) else 0)) \<and>
              (\<forall>k. hits (rnd_at k) ev = (if k < L then nat (passes + 1 - pass) else 0)))"
  using assms
proof (induction "nat (passes + 1 - pass)" arbitrary: w d buf pass c ok buf' w' d' rule: less_induct)
  case less
  note run = less.prems(1) and fsw = less.prems(2) and lc = less.prems(3) and bl = less.prems(4)
  show ?case
  proof (cases "pass \<le> passes")
    case False
    with run have res: "ok" "buf' = buf" "w' = w" "d' = d"
      by (simp_all add: pass_loop.simps[of verbose path fd L bufsize passes w])
    have "pass_post L fd w w []" using fsw lc
      by (auto simp: pass_post_def map_upd_triv intro!: exI[of _ c])
    moreover have "nat (passes + 1 - pass) = 0" using False by simp
    ultimately show ?thesis using res
      by (intro exI[of _ "[]"]) (simp add: hits_Nil)
  next
    case True
    obtain x w1 where sk: "sys_lseek0 (warn verbose (Msg_pass pass passes path) w) fd = (x, w1)"
      by (cases "sys_lseek0 (warn verbose (Msg_pass pass passes path) w) fd")
    show ?thesis
    proof (cases x)
      case (Fail e)
      with True sk run have res: "\<not> ok" "buf' = buf"
        "w' = close_fd (warn verbose (Perror ''lseek'') w1)"
        by (simp_all add: pass_loop.simps[of verbose path fd L bufsize passes w])
      from seek_failed[OF sk[unfolded Fail] fsw lc, of "Perror ''lseek''"] res
      obtain ev where "pass_post L fd w w' ev" "list_all quiet_event ev" by auto
      then show ?thesis using res quiet_events_silent[of ev] by auto
    next
      case (Ok u)
      from seek_then_pass[OF sk[unfolded Ok] fsw lc]
      obtain ev0 where fs1: "fs w1 fd = Some (Reg c)" and pos1: "fd_pos w1 = 0"
        and ev0: "pass_post L fd w w1 ev0" "list_all quiet_event ev0" by auto
      note s0 = quiet_events_silent[OF ev0(2)]
      obtain ok1 buf1 w2 where rp: "random_pass_loop verbose fd L bufsize w1 buf 0 = (ok1, buf1, w2)"
        by (cases "random_pass_loop verbose fd L bufsize w1 buf 0")
      from random_pass_loop_shape[OF rp fs1 lc pos1 _ bl]
      obtain ev1 where ev1: "pass_post L fd w1 w2 ev1" "length buf1 = length buf"
        "hits is_memset ev1 = 0" "\<forall>k. hits (zero_at k) ev1 = 0"
        "ok1 \<longrightarrow> (\<forall>k. hits (covers k) ev1 = (if k < L then 1 else 0)) \<and>
           (\<forall>k. hits (rnd_at k) ev1 = (if k < L then 1 else 0))"
        by auto
      note pp1 = pass_post_trans[OF ev0(1) ev1(1)]
      show ?thesis
      proof (cases ok1)
        case False
        with True sk Ok rp run have res: "\<not> ok" "buf' = buf1" "w' = w2"
          by (simp_all add: pass_loop.simps[of verbose path fd L bufsize passes w])
        show ?thesis using res pp1 ev1 s0
          by (intro exI[of _ "ev0 @ ev1"]) (simp add: hits_append)
      next
        case ok1: True
        obtain s d1 where sc: "sync_and_check d fd = (s, d1)" by (cases "sync_and_check d fd")
        define d2 where "d2 = (if s \<noteq> 0 then sync_warn verbose (Perror ''sync'') d1 else d1)"
        have cp: "checkpoints d2 = checkpoints d + 1"
          unfolding d2_def by (rule sync_and_check_checkpoints[OF sc])
        from True sk Ok rp ok1 sc run have rec:
          "pass_loop verbose path fd L bufsize passes w2 d2 buf1 (pass + 1) = (ok, buf', w', d')"
          by (simp add: pass_loop.simps[of verbose path fd L bufsize passes w] d2_def)
        from pass_post_file[OF ev1(1)] obtain c2 where
          c2: "fs w2 fd = Some (Reg c2)" "length c2 = L" by blast
        have dec: "nat (passes + 1 - (pass + 1)) < nat (passes + 1 - pass)" using True by simp
        have bl1: "bufsize \<le> length buf1" using bl ev1(2) by simp
        from less.hyps[OF dec rec c2 bl1]
        obtain ev2 where ev2: "pass_post L fd w2 w' ev2" "length buf' = length buf1"
          "hits is_memset ev2 = 0" "\<forall>k. hits (zero_at k) ev2 = 0"
          "ok \<longrightarrow> checkpoints d' = checkpoints d2 + nat (passes + 1 - (pass + 1)) \<and>
            (\<forall>k. hits (covers k) ev2 = (if k < L then nat (passes + 1 - (pass + 1)) else 0)) \<and>
            (\<forall>k. hits (rnd_at k) ev2 = (if k < L then nat (passes + 1 - (pass + 1)) else 0))"
          by auto
        have step: "nat (passes + 1 - pass) = 1 + nat (passes + 1 - (pass + 1))"
          using True by simp
        have "pass_post L fd w w' ((ev0 @ ev1) @ ev2)" by (rule pass_post_trans[OF pp1 ev2(1)])
        moreover have "hits is_memset ((ev0 @ ev1) @ ev2) = 0"
          and "\<forall>k. hits (zero_at k) ((ev0 @ ev1) @ ev2) = 0"
          using s0 ev1(3,4) ev2(3,4) by (simp_all add: hits_append)
        moreover have "ok \<longrightarrow> checkpoints d' = checkpoints d + nat (passes + 1 - pass) \<and>
            (\<forall>k. hits (covers k) ((ev0 @ ev1) @ ev2) = (if k < L then nat (passes + 1 - pass) else 0)) \<and>
            (\<forall>k. hits (rnd_at k) ((ev0 @ ev1) @ ev2) = (if k < L then nat (passes + 1 - pass) else 0))"
          using s0 ev1(5) ev2(5) ok1 cp step by (simp add: hits_append)
        ultimately show ?thesis using ev2(2) ev1(2)
          by (intro exI[of _ "(ev0 @ ev1) @ ev2"]) simp
      qed
    qed
  qed
qed

lemma final_zero_pass_shape:
  assumes "final_zero_pass verbose path fd L bufsize w d buf = (ok, w', d')"
    and "fs w fd = Some (Reg c)" and "length c = L" and "length buf = bufsize"
  shows "\<exists>ev. pass_post L fd w w' ev \<and> (\<forall>k. hits (rnd_at k) ev = 0) \<and>
           (ok \<longrightarrow> checkpoints d' = checkpoints d + 1 \<and> hits is_memset ev = 1 \<and>
              (\<forall>k. hits (covers k) ev = (if k < L then 1 else 0)) \<and>
              (\<forall>k. hits (zero_at k) ev = (if k < L then 1 else 0)))"
proof -
  obtain x w1 where sk: "sys_lseek0 (warn verbose (Msg_final_zero path) w) fd = (x, w1)"
    by (cases "sys_lseek0 (warn verbose (Msg_final_zero path) w) fd")
  show ?thesis
  proof (cases x)
    case (Fail e)
    with sk assms(1) have res: "\<not> ok" "w' = close_fd (warn verbose (Perror ''lseek'') w1)"
      by (simp_all add: final_zero_pass_def)
    from seek_failed[OF sk[unfolded Fail] assms(2,3), of "Perror ''lseek''"] res
    obtain ev where "pass_post L fd w w' ev" "list_all quiet_event ev" by auto
    then show ?thesis using res quiet_events_silent[of ev] by auto
  next
    case (Ok u)
    from seek_then_pass[OF sk[unfolded Ok] assms(2,3)]
    obtain ev0 where fs1: "fs w1 fd = Some (Reg c)" and pos1: "fd_pos w1 = 0"
      and ev0: "pass_post L fd w w1 ev0" "list_all quiet_event ev0" by auto
    note s0 = quiet_events_silent[OF ev0(2)]
    define wm where "wm = emit (Ev_memset bufsize) w1"
    have fsm: "fs wm fd = Some (Reg c)" and posm: "fd_pos wm = 0"
      using fs1 pos1 by (simp_all add: wm_def emit_def)
    have ppm: "pass_post L fd w1 wm [Ev_memset bufsize]"
      using fs1 assms(3) by (auto simp: pass_post_def wm_def emit_def map_upd_triv intro!: exI[of _ c])
    have zb: "store buf 0 (replicate bufsize Zeroed) = replicate bufsize Zeroed"
      using assms(4) by (simp add: store_def)
    obtain ok1 w2 where zp:
      "zero_pass_loop verbose fd L bufsize wm (replicate bufsize Zeroed) 0 = (ok1, w2)"
      by (cases "zero_pass_loop verbose fd L bufsize wm (replicate bufsize Zeroed) 0")
    from zero_pass_loop_shape[OF zp fsm assms(3) posm]
    obtain ev1 where ev1: "pass_post L fd wm w2 ev1"
      "hits is_memset ev1 = 0" "\<forall>k. hits (rnd_at k) ev1 = 0"
      "ok1 \<longrightarrow> (\<forall>k. hits (covers k) ev1 = (if k < L then 1 else 0)) \<and>
         (\<forall>k. hits (zero_at k) ev1 = (if k < L then 1 else 0))"
      by auto
    note pp = pass_post_trans[OF pass_post_trans[OF ev0(1) ppm] ev1(1)]
    have cnt: "hits is_memset ((ev0 @ [Ev_memset bufsize]) @ ev1) = 1"
      "\<forall>k. hits (rnd_at k) ((ev0 @ [Ev_memset bufsize]) @ ev1) = 0"
      "\<forall>k. hits (covers k) ((ev0 @ [Ev_memset bufsize]) @ ev1) = hits (covers k) ev1"
      "\<forall>k. hits (zero_at k) ((ev0 @ [Ev_memset bufsize]) @ ev1) = hits (zero_at k) ev1"
      using s0 ev1(2,3) by (simp_all add: hits_append hits_Cons)
    show ?thesis
    proof (cases ok1)
      case False
      with sk Ok zp zb assms(1) have res: "\<not> ok" "w' = w2"
        by (simp_all add: final_zero_pass_def wm_def)
      show ?thesis using res pp cnt(2)
        by (intro exI[of _ "(ev0 @ [Ev_memset bufsize]) @ ev1"]) simp
    next
      case True
      obtain s d1 where sc: "sync_and_check d fd = (s, d1)" by (cases "sync_and_check d fd")
      from sk Ok zp zb True sc assms(1) have res: "ok" "w' = w2"
        "d' = (if s \<noteq> 0 then sync_warn verbose (Perror ''sync'') d1 else d1)"
        by (simp_all add: final_zero_pass_def wm_def)
      have cp: "checkpoints d' = checkpoints d + 1"
        unfolding res(3) by (rule sync_and_check_checkpoints[OF sc])
      show ?thesis using res(1,2) pp cnt ev1(4) True cp
        by (intro exI[of _ "(ev0 @ [Ev_memset bufsize]) @ ev1"]) simp
    qed
  qed
qed

section \<open>\<^verbatim>\<open>overwrite_file\<close> on a regular file\<close>

lemma stat_regular:
  "names_regular w p rp c \<Longrightarrow>
   sys_stat w p = (Ok \<lparr>st_mode = S_IFREG, st_size = length c\<rparr>, emit (Ev_stat p) w)"
  by (simp add: names_regular_def sys_stat_def)

lemma open_regular:
  assumes "names_regular w p rp c" and "sys_open (emit (Ev_stat p) w) p [O_WRONLY] = (x, w2)"
  shows "fs w2 = fs w \<and>
         (case x of
            Fail e \<Rightarrow> (\<forall>qo. q_sys w SC_open \<noteq> Ok () # qo) \<and>
              trace w2 = trace w @ [Ev_stat p, Ev_open p [O_WRONLY], Ev_sys SC_open (Fail e)]
          | Ok fd \<Rightarrow> fd = rp \<and> fd_pos w2 = 0 \<and> (\<exists>qo. q_sys w SC_open = Ok () # qo) \<and>
              trace w2 = trace w @ [Ev_stat p, Ev_open p [O_WRONLY], Ev_sys SC_open (Ok ())])"
  using assms
  by (auto simp: names_regular_def sys_open_def sys_simple_def emit_def
      split: list.splits sysres.splits)

lemma alloc_buf_Inr:
  "alloc_buf w n = Inr (buf, w') \<Longrightarrow>
   buf = replicate n (Stale 0) \<and> fs w' = fs w \<and> fd_pos w' = fd_pos w \<and>
   trace w' = trace w @ [Ev_alloc n, Ev_sys SC_malloc (Ok ())]"
  by (auto simp: alloc_buf_def sys_simple_def emit_def split: list.splits sysres.splits)

lemma alloc_buf_Inl:
  "alloc_buf w n = Inl (status, w') \<Longrightarrow>
   status = 2 \<and> fs w' = fs w \<and>
   (\<exists>e. trace w' = trace w @ [Ev_alloc n, Ev_sys SC_malloc (Fail e), Stderr (Msg_malloc_failed n)])"
  by (auto simp: alloc_buf_def sys_simple_def emit_def split: list.splits sysres.splits)

lemma final_close_quiet:
  "sys_simple SC_close w = (x, w1) \<Longrightarrow> quiet w w1 \<and> quiet w (warn verbose m w1)"
  by (auto simp: sys_simple_def quiet_def warn_def emit_def split: list.splits)

lemma overwrite_file_shape:
  fixes w :: world and d :: durability and passes :: int and final_zero verbose :: bool
  assumes reg: "names_regular w path rp c" and lc: "length c = L"
  defines "res \<equiv> overwrite_file w d path passes final_zero verbose"
  shows "(\<forall>qo. q_sys w SC_open \<noteq> Ok () # qo) \<and>
           (\<exists>w' e. res = Return (- 1) w' d \<and> fs w' = fs w \<and>
              trace w' = trace w @ [Ev_stat path, Ev_open path [O_WRONLY], Ev_sys SC_open (Fail e)] @
                (if verbose then [Stderr (Perror ''open'')] else [])) \<or>
         (\<exists>qo. q_sys w SC_open = Ok () # qo) \<and>
           (\<exists>ev. overwrite_shape L path rp w (proc_world res) ev \<and>
              (\<forall>w' d'. res = Return 0 w' d' \<longrightarrow> 0 \<le> passes \<longrightarrow>
                 overwrite_counts L passes final_zero ev d d'))"
proof -
  note st = stat_regular[OF reg]
  obtain x w2 where so: "sys_open (emit (Ev_stat path) w) path [O_WRONLY] = (x, w2)"
    by (cases "sys_open (emit (Ev_stat path) w) path [O_WRONLY]")
  note op = open_regular[OF reg so]
  show ?thesis
  proof (cases x)
    case (Fail e)
    with st so have "res = Return (- 1) (warn verbose (Perror ''open'') w2) d"
      by (simp add: res_def overwrite_file_def)
    moreover from op Fail have "trace (warn verbose (Perror ''open'') w2) =
        trace w @ [Ev_stat path, Ev_open path [O_WRONLY], Ev_sys SC_open (Fail e)] @
          (if verbose then [Stderr (Perror ''open'')] else [])"
      by (simp add: emit_def warn_def)
    ultimately show ?thesis using op Fail by (auto simp: warn_def emit_def)
  next
    case (Ok fd)
    with op have fd: "fd = rp" and fs2: "fs w2 = fs w" and pos2: "fd_pos w2 = 0"
      and opened: "\<exists>qo. q_sys w SC_open = Ok () # qo"
      and tr2: "trace w2 = trace w @ [Ev_stat path, Ev_open path [O_WRONLY], Ev_sys SC_open (Ok ())]"
      by simp_all
    have fsrp: "fs w rp = Some (Reg c)" using reg by (simp add: names_regular_def)
    show ?thesis
    proof (cases "alloc_buf w2 (bufsize_of L)")
      case (Inl a)
      obtain status w3 where a: "a = (status, w3)" by (cases a)
      from alloc_buf_Inl[OF Inl[unfolded a]] obtain e where
        al: "status = 2" "fs w3 = fs w2"
        "trace w3 = trace w2 @ [Ev_alloc (bufsize_of L), Ev_sys SC_malloc (Fail e), Stderr (Msg_malloc_failed (bufsize_of L))]"
        by auto
      from st so Ok Inl a lc have r: "res = Exit status w3 d"
        by (simp add: res_def overwrite_file_def)
      have "overwrite_shape L path rp w w3 [Stderr (Msg_malloc_failed (bufsize_of L))]"
        using al tr2 fs2 fsrp lc
        by (auto simp: overwrite_shape_def map_upd_triv intro!: exI[of _ c])
      with r opened show ?thesis by auto
    next
      case (Inr b)
      obtain buf w3 where b: "b = (buf, w3)" by (cases b)
      from alloc_buf_Inr[OF Inr[unfolded b]] have
        al: "buf = replicate (bufsize_of L) (Stale 0)" "fs w3 = fs w2" "fd_pos w3 = fd_pos w2"
        "trace w3 = trace w2 @ [Ev_alloc (bufsize_of L), Ev_sys SC_malloc (Ok ())]"
        by auto
      have head: "trace w3 = trace w @ [Ev_stat path, Ev_open path [O_WRONLY], Ev_sys SC_open (Ok ()),
         Ev_alloc (bufsize_of L), Ev_sys SC_malloc (Ok ())]"
        using al(4) tr2 by simp
      have fs3: "fs w3 rp = Some (Reg c)" "fs w3 = fs w" using al(2) fs2 fsrp by simp_all
      have lbuf: "length buf = bufsize_of L" using al(1) by simp
      obtain ok buf1 w4 d1 where pl:
        "pass_loop verbose path rp L (bufsize_of L) passes w3 d buf 1 = (ok, buf1, w4, d1)"
        by (cases "pass_loop verbose path rp L (bufsize_of L) passes w3 d buf 1") auto
      from pass_loop_shape[OF pl fs3(1) lc] lbuf
      obtain ev1 where ev1: "pass_post L rp w3 w4 ev1" "length buf1 = bufsize_of L"
        "hits is_memset ev1 = 0" "\<forall>k. hits (zero_at k) ev1 = 0"
        "ok \<longrightarrow> checkpoints d1 = checkpoints d + nat passes \<and>
          (\<forall>k. hits (covers k) ev1 = (if k < L then nat passes else 0)) \<and>
          (\<forall>k. hits (rnd_at k) ev1 = (if k < L then nat passes else 0))"
        by auto
      have shape_of: "overwrite_shape L path rp w w' ev" if "pass_post L rp w3 w' ev" for w' ev
        using that head fs3(2) by (auto simp: overwrite_shape_def pass_post_def)
      show ?thesis
      proof (cases ok)
        case False
        with st so Ok fd Inr b lc pl have r: "res = Return (- 1) w4 d1"
          by (simp add: res_def overwrite_file_def)
        with shape_of[OF ev1(1)] opened show ?thesis by auto
      next
        case ok: True
        obtain ok' w5 d2 where fz:
          "(if final_zero then final_zero_pass verbose path rp L (bufsize_of L) w4 d1 buf1
            else (True, w4, d1)) = (ok', w5, d2)"
          by (cases "if final_zero then final_zero_pass verbose path rp L (bufsize_of L) w4 d1 buf1
            else (True, w4, d1)") auto
        from pass_post_file[OF ev1(1)] obtain c4 where
          c4: "fs w4 rp = Some (Reg c4)" "length c4 = L" by blast
        have "\<exists>ev2. pass_post L rp w4 w5 ev2 \<and> (\<forall>k. hits (rnd_at k) ev2 = 0) \<and>
            (ok' \<longrightarrow> checkpoints d2 = checkpoints d1 + (if final_zero then 1 else 0) \<and>
               hits is_memset ev2 = (if final_zero then 1 else 0) \<and>
               (\<forall>k. hits (covers k) ev2 = (if k < L \<and> final_zero then 1 else 0)) \<and>
               (\<forall>k. hits (zero_at k) ev2 = (if k < L \<and> final_zero then 1 else 0)))"
        proof (cases final_zero)
          case True
          with fz have "final_zero_pass verbose path rp L (bufsize_of L) w4 d1 buf1 = (ok', w5, d2)"
            by simp
          from final_zero_pass_shape[OF this c4 ev1(2)] True show ?thesis by auto
        next
          case False
          with fz have "ok'" "w5 = w4" "d2 = d1" by simp_all
          moreover have "pass_post L rp w4 w4 []" using c4
            by (auto simp: pass_post_def map_upd_triv intro!: exI[of _ c4])
          ultimately show ?thesis using False by (intro exI[of _ "[]"]) (simp add: hits_Nil)
        qed
        then obtain ev2 where ev2: "pass_post L rp w4 w5 ev2" "\<forall>k. hits (rnd_at k) ev2 = 0"
          "ok' \<longrightarrow> checkpoints d2 = checkpoints d1 + (if final_zero then 1 else 0) \<and>
               hits is_memset ev2 = (if final_zero then 1 else 0) \<and>
               (\<forall>k. hits (covers k) ev2 = (if k < L \<and> final_zero then 1 else 0)) \<and>
               (\<forall>k. hits (zero_at k) ev2 = (if k < L \<and> final_zero then 1 else 0))"
          by blast
        note pp = pass_post_trans[OF ev1(1) ev2(1)]
        show ?thesis
        proof (cases ok')
          case False
          with st so Ok fd Inr b lc pl ok fz have r: "res = Return (- 1) w5 d2"
            by (simp add: res_def overwrite_file_def)
          with shape_of[OF pp] opened show ?thesis by auto
        next
          case ok': True
          obtain xc w6 where cl: "sys_simple SC_close w5 = (xc, w6)"
            by (cases "sys_simple SC_close w5")
          define w7 where "w7 = (case xc of Fail e \<Rightarrow> warn verbose (Perror ''close'') w6 | Ok u \<Rightarrow> w6)"
          from st so Ok fd Inr b lc pl ok fz ok' cl have r: "res = Return 0 w7 d2"
            by (simp add: res_def overwrite_file_def w7_def split: sysres.splits)
          from pass_post_file[OF ev2(1)] obtain c5 where
            c5: "fs w5 rp = Some (Reg c5)" "length c5 = L" by blast
          have "quiet w5 w7" using final_close_quiet[OF cl, of verbose "Perror ''close''"]
            by (simp add: w7_def split: sysres.splits)
          from pass_post_quiet[OF this c5] obtain ev3 where
            ev3: "pass_post L rp w5 w7 ev3" "list_all quiet_event ev3" by blast
          note s3 = quiet_events_silent[OF ev3(2)]
          note pp7 = pass_post_trans[OF pp ev3(1)]
          have "overwrite_counts L passes final_zero ((ev1 @ ev2) @ ev3) d d2" if "0 \<le> passes"
            using ev1(3,4,5) ev2(2,3) s3 ok ok' that
            by (simp add: overwrite_counts_def hits_append)
          with r shape_of[OF pp7] opened show ?thesis by auto
        qed
      qed
    qed
  qed
qed

section \<open>Concrete runs\<close>

lemma returned_Some: "returned res = Some r \<Longrightarrow> res = Return r (proc_world res) (proc_durability res)"
  by (cases res) simp_all

lemma w_file_regular: "names_regular w_file ''/tmp/l'' ''/tmp/a'' [Stale 170, Stale 170, Stale 170]"
  by code_simp

lemma run_file_facts:
  "returned run_file = Some 0"
  "new_events w_file (proc_world run_file) =
     [Ev_stat ''/tmp/l'', Ev_open ''/tmp/l'' [O_WRONLY], Ev_sys SC_open (Ok ()), Ev_alloc 3,
      Ev_sys SC_malloc (Ok ()), Stderr (Msg_pass 1 2 ''/tmp/l''), Ev_sys SC_lseek (Ok ()),
      Ev_write 0 [Rnd 1, Rnd 2], Ev_write 2 [Rnd 5],
      Stderr (Msg_pass 2 2 ''/tmp/l''), Ev_sys SC_lseek (Ok ()),
      Ev_write 0 [Rnd 9, Rnd 10, Rnd 11],
      Stderr (Msg_final_zero ''/tmp/l''), Ev_sys SC_lseek (Ok ()),
      Ev_memset 3, Ev_write 0 [Zeroed], Ev_write 1 [Zeroed, Zeroed],
      Ev_sys SC_close (Ok ())]"
  "fs (proc_world run_file) ''/tmp/a'' = Some (Reg [Zeroed, Zeroed, Zeroed])"
  "fs (proc_world run_file) ''/tmp/l'' = Some (Symlink ''/tmp/a'')"
  "sync_log (proc_durability run_file) =
     [Sync_fdatasync (Fail EINVAL), Sync_fsync (Fail EIO), Sync_warning (Perror ''sync''),
      Sync_fdatasync (Ok ()),
      Sync_fdatasync (Fail EIO), Sync_fsync (Fail EIO), Sync_warning (Perror ''sync'')]"
  by code_simp+

lemma run_file_eq:
  "overwrite_file w_file d_flaky ''/tmp/l'' 2 True True =
     Return 0 (proc_world run_file) (proc_durability run_file)"
  using returned_Some[OF run_file_facts(1)] by (simp add: run_file_def)

lemma w_empty_regular: "names_regular w_empty ''/tmp/e'' ''/tmp/e'' []"
  by code_simp

lemma run_empty_facts:
  "returned run_empty = Some 0"
  "new_events w_empty (proc_world run_empty) =
     [Ev_stat ''/tmp/e'', Ev_open ''/tmp/e'' [O_WRONLY], Ev_sys SC_open (Ok ()), Ev_alloc CHUNK,
      Ev_sys SC_malloc (Ok ()), Ev_sys SC_lseek (Ok ()), Ev_sys SC_lseek (Ok ()),
      Ev_sys SC_lseek (Ok ()), Ev_memset CHUNK, Ev_sys SC_close (Ok ())]"
  "checkpoints (proc_durability run_empty) = 3"
  by code_simp+

section \<open>What \<^verbatim>\<open>overwrite_file\<close> writes\<close>

lemma overwrite_file_returned_0:
  assumes "names_regular w path rp c"
    and "overwrite_file w d path passes final_zero verbose = Return 0 w' d'"
  shows "\<exists>ev r. new_events w w' =
            [Ev_stat path, Ev_open path [O_WRONLY], Ev_sys SC_open (Ok ()),
             Ev_alloc (bufsize_of (length c)), Ev_sys SC_malloc r] @ ev \<and>
           list_all (engine_event (length c)) ev \<and>
           (\<exists>c'. fs w' = (fs w)(rp \<mapsto> Reg c') \<and> length c' = length c) \<and>
           (0 \<le> passes \<longrightarrow> overwrite_counts (length c) passes final_zero ev d d')"
  using overwrite_file_shape[OF assms(1) refl, of d passes final_zero verbose] assms(2)
  by (auto simp: overwrite_shape_def new_events_def)

text \<open>
  C4. When \<^verbatim>\<open>overwrite_file\<close> returns 0 on a regular file of length \<open>L\<close> with
  \<open>passes \<ge> 1\<close>, the writes it made put random bytes on every offset below \<open>L\<close> exactly
  \<open>passes\<close> times, zero bytes exactly once more under \<open>final_zero\<close> and never otherwise,
  and nothing else: every offset below \<open>L\<close> was written \<open>passes\<close> (plus one) times, no
  offset from \<open>L\<close> on was written at all, and the buffer was cleared by \<open>memset\<close> once
  under \<open>final_zero\<close> and never otherwise.
\<close>

theorem overwrite_writes_every_byte:
  assumes "names_regular w path rp c" and "1 \<le> passes"
    and "overwrite_file w d path passes final_zero verbose = Return 0 w' d'"
  shows "(\<forall>k<length c.
            hits (rnd_at k) (new_events w w') = nat passes \<and>
            hits (zero_at k) (new_events w w') = (if final_zero then 1 else 0) \<and>
            hits (covers k) (new_events w w') = nat passes + (if final_zero then 1 else 0)) \<and>
         (\<forall>k\<ge>length c. hits (covers k) (new_events w w') = 0) \<and>
         hits is_memset (new_events w w') = (if final_zero then 1 else 0)"
proof -
  from overwrite_file_returned_0[OF assms(1,3)] assms(2)
  obtain ev r where ev: "new_events w w' =
      [Ev_stat path, Ev_open path [O_WRONLY], Ev_sys SC_open (Ok ()),
       Ev_alloc (bufsize_of (length c)), Ev_sys SC_malloc r] @ ev"
    and cnt: "overwrite_counts (length c) passes final_zero ev d d'"
    by auto
  have same: "hits (rnd_at k) (new_events w w') = hits (rnd_at k) ev"
    "hits (zero_at k) (new_events w w') = hits (zero_at k) ev"
    "hits (covers k) (new_events w w') = hits (covers k) ev"
    "hits is_memset (new_events w w') = hits is_memset ev" for k
    unfolding ev by (simp_all add: hits_def)
  show ?thesis unfolding same using cnt by (simp add: overwrite_counts_def)
qed

theorem overwrite_writes_every_byte_witness:
  "returned run_file = Some 0 \<and>
   hits (rnd_at 2) (new_events w_file (proc_world run_file)) = 2 \<and>
   hits (zero_at 2) (new_events w_file (proc_world run_file)) = 1 \<and>
   hits (covers 2) (new_events w_file (proc_world run_file)) = 3 \<and>
   hits (covers 3) (new_events w_file (proc_world run_file)) = 0 \<and>
   hits is_memset (new_events w_file (proc_world run_file)) = 1"
proof -
  have "(2::nat) < length [Stale 170, Stale 170, Stale 170 :: cell]"
    "length [Stale 170, Stale 170, Stale 170 :: cell] \<le> (3::nat)" by simp_all
  with overwrite_writes_every_byte[OF w_file_regular _ run_file_eq] run_file_facts(1)
  show ?thesis by auto
qed

lemma engine_event_kinds: "engine_event L e \<Longrightarrow> \<not> is_alloc e \<and> \<not> is_open e \<and> within L e"
  by (cases e) auto

lemma engine_events_kinds:
  assumes "list_all (engine_event L) ev"
  shows "filter is_alloc ev = []" "filter is_open ev = []" "list_all (within L) ev"
  using assms by (induction ev) (auto simp: engine_event_kinds)

text \<open>
  C8. Once \<^verbatim>\<open>overwrite_file\<close> has opened a regular file of length \<open>L\<close>, it allocates
  exactly one buffer, of size \<open>min CHUNK L\<close> with \<open>CHUNK\<close> = 1 MiB, except that for \<open>L = 0\<close>
  the size is \<open>CHUNK\<close>; the size is never 0.
\<close>

theorem scratch_buffer_size:
  assumes "names_regular w path rp c" and "q_sys w SC_open = Ok () # qo"
  shows "filter is_alloc
           (new_events w (proc_world (overwrite_file w d path passes final_zero verbose))) =
           [Ev_alloc (if length c = 0 then CHUNK else min CHUNK (length c))] \<and>
         0 < (if length c = 0 then CHUNK else min CHUNK (length c)) \<and> CHUNK = 1048576"
proof -
  from overwrite_file_shape[OF assms(1) refl, of d passes final_zero verbose] assms(2)
  obtain ev where "overwrite_shape (length c) path rp w
      (proc_world (overwrite_file w d path passes final_zero verbose)) ev"
    by auto
  then obtain r where tr: "new_events w (proc_world (overwrite_file w d path passes final_zero verbose)) =
      [Ev_stat path, Ev_open path [O_WRONLY], Ev_sys SC_open (Ok ()),
       Ev_alloc (bufsize_of (length c)), Ev_sys SC_malloc r] @ ev"
    and ev: "list_all (engine_event (length c)) ev"
    by (auto simp: overwrite_shape_def new_events_def)
  have bs: "bufsize_of (length c) = (if length c = 0 then CHUNK else min CHUNK (length c))"
    by (simp add: bufsize_of_def min_def)
  have "0 < CHUNK" "CHUNK = 1048576" by (simp_all add: CHUNK_def)
  then show ?thesis unfolding tr using engine_events_kinds(1)[OF ev] bs by auto
qed

theorem scratch_buffer_size_witness:
  "filter is_alloc (new_events w_file (proc_world run_file)) = [Ev_alloc 3] \<and>
   filter is_alloc (new_events w_empty (proc_world run_empty)) = [Ev_alloc CHUNK]"
proof -
  have o1: "q_sys w_file SC_open = Ok () # []" and o2: "q_sys w_empty SC_open = Ok () # []"
    by (simp_all add: w_file_def w_empty_def)
  have "min CHUNK 3 = 3" by (simp add: CHUNK_def)
  with scratch_buffer_size[OF w_file_regular o1, of d_flaky 2 True True]
    scratch_buffer_size[OF w_empty_regular o2, of d_dead 2 True False]
  show ?thesis by (simp add: run_file_def run_empty_def)
qed

text \<open>
  C10. When \<^verbatim>\<open>overwrite_file\<close> returns 0 on a regular file, the file has the length it
  had and no other node of the file system has changed: the one \<open>open\<close> of the call has
  the flag \<open>O_WRONLY\<close> alone (no \<open>O_TRUNC\<close>), no write ends past the original length, and
  the writes cover each offset below it once per pass, from offset 0 on, and no offset
  beyond.
\<close>

theorem overwrite_keeps_length:
  assumes "names_regular w path rp c"
    and "overwrite_file w d path passes final_zero verbose = Return 0 w' d'"
  shows "(\<exists>c'. fs w' = (fs w)(rp \<mapsto> Reg c') \<and> length c' = length c) \<and>
         filter is_open (new_events w w') = [Ev_open path [O_WRONLY]] \<and>
         list_all (within (length c)) (new_events w w') \<and>
         (0 \<le> passes \<longrightarrow>
            (\<forall>k. hits (covers k) (new_events w w') =
               (if k < length c then nat passes + (if final_zero then 1 else 0) else 0)))"
proof -
  from overwrite_file_returned_0[OF assms]
  obtain ev r where tr: "new_events w w' =
      [Ev_stat path, Ev_open path [O_WRONLY], Ev_sys SC_open (Ok ()),
       Ev_alloc (bufsize_of (length c)), Ev_sys SC_malloc r] @ ev"
    and ev: "list_all (engine_event (length c)) ev"
    and fsw: "\<exists>c'. fs w' = (fs w)(rp \<mapsto> Reg c') \<and> length c' = length c"
    and cnt: "0 \<le> passes \<longrightarrow> overwrite_counts (length c) passes final_zero ev d d'"
    by blast
  note k = engine_events_kinds[OF ev]
  have "hits (covers k) (new_events w w') = hits (covers k) ev" for k
    unfolding tr by (simp add: hits_def)
  with cnt have "0 \<le> passes \<longrightarrow>
      (\<forall>k. hits (covers k) (new_events w w') =
         (if k < length c then nat passes + (if final_zero then 1 else 0) else 0))"
    by (simp add: overwrite_counts_def)
  moreover have "filter is_open (new_events w w') = [Ev_open path [O_WRONLY]]"
    unfolding tr using k(2) by simp
  moreover have "list_all (within (length c)) (new_events w w')"
    unfolding tr using k(3) by simp
  ultimately show ?thesis using fsw by blast
qed

theorem overwrite_keeps_length_witness:
  "fs (proc_world run_file) ''/tmp/a'' = Some (Reg [Zeroed, Zeroed, Zeroed]) \<and>
   fs (proc_world run_file) ''/tmp/d'' = Some Dir \<and>
   filter is_open (new_events w_file (proc_world run_file)) = [Ev_open ''/tmp/l'' [O_WRONLY]] \<and>
   list_all (within 3) (new_events w_file (proc_world run_file)) \<and>
   hits (covers 0) (new_events w_file (proc_world run_file)) = 3 \<and>
   hits (covers 3) (new_events w_file (proc_world run_file)) = 0"
proof -
  note t = overwrite_keeps_length[OF w_file_regular run_file_eq]
  from t obtain c' where c: "fs (proc_world run_file) = (fs w_file)(''/tmp/a'' \<mapsto> Reg c')"
    by blast
  have d: "fs (proc_world run_file) ''/tmp/d'' = Some Dir"
    unfolding c by (simp add: w_file_def)
  from t have o: "filter is_open (new_events w_file (proc_world run_file)) = [Ev_open ''/tmp/l'' [O_WRONLY]]"
    by blast
  from t have "list_all (within (length [Stale 170, Stale 170, Stale 170 :: cell]))
      (new_events w_file (proc_world run_file))"
    by blast
  then have wi: "list_all (within 3) (new_events w_file (proc_world run_file))"
    by (simp add: numeral_3_eq_3)
  from t have "\<forall>k. hits (covers k) (new_events w_file (proc_world run_file)) =
      (if k < length [Stale 170, Stale 170, Stale 170 :: cell] then nat 2 + (if True then 1 else 0) else 0)"
    by simp
  then have h: "hits (covers 0) (new_events w_file (proc_world run_file)) = 3"
    "hits (covers 3) (new_events w_file (proc_world run_file)) = 0"
    by simp_all
  from run_file_facts(3) d o wi h show ?thesis by simp
qed

section \<open>The empty file\<close>






lemma sys_simple_other:
  "sc' \<noteq> sc \<Longrightarrow> sys_simple sc w = (x, w1) \<Longrightarrow> q_sys w1 sc' = q_sys w sc'"
  by (auto simp: sys_simple_def emit_def split: list.splits)











section \<open>Paths that do not name a regular file\<close>

lemma stat_not_regular:
  assumes "\<forall>rp c. \<not> names_regular w path rp c"
  shows "(\<exists>e. sys_stat w path = (Fail e, emit (Ev_stat path) w)) \<or>
         (\<exists>st. sys_stat w path = (Ok st, emit (Ev_stat path) w) \<and> st_mode st \<noteq> S_IFREG)"
proof (cases "resolve (fs w) 40 path")
  case (Fail e)
  then show ?thesis by (simp add: sys_stat_def)
next
  case (Ok rp)
  show ?thesis
  proof (cases "fs w rp")
    case None
    with Ok show ?thesis by (simp add: sys_stat_def)
  next
    case (Some nd)
    with Ok assms have "\<forall>c. nd \<noteq> Reg c" by (auto simp: names_regular_def)
    then have "st_mode (node_stat nd) \<noteq> S_IFREG" by (cases nd) auto
    with Ok Some show ?thesis by (simp add: sys_stat_def)
  qed
qed





section \<open>Checkpoints that fail\<close>





section \<open>Rename and unlink\<close>

lemma calm_refl: "calm w w"
  by (simp add: calm_def)

lemma calm_trans: "calm w w1 \<Longrightarrow> calm w1 w2 \<Longrightarrow> calm w w2"
  by (auto simp: calm_def)

lemma calm_warn: "calm w (warn verbose m w)"
  by (simp add: calm_def warn_def emit_def)

lemma calm_emit: "\<not> fs_event e \<Longrightarrow> \<not> is_stat e \<Longrightarrow> calm w (emit e w)"
  by (simp add: calm_def emit_def)

lemma calm_sys_simple:
  "sc \<noteq> SC_rename \<Longrightarrow> sc \<noteq> SC_unlink \<Longrightarrow> sys_simple sc w = (x, w1) \<Longrightarrow> calm w w1"
  by (auto simp: sys_simple_def calm_def emit_def split: list.splits)

lemma calm_close_fd: "calm w (close_fd w)"
  using calm_sys_simple[of SC_close w] by (cases "sys_simple SC_close w") (simp add: close_fd_def)

lemma urandom_not_fs: "urandom_event e \<Longrightarrow> \<not> fs_event e \<and> \<not> is_stat e"
  by (cases e) (auto simp: urandom_event_def)

lemma rnd_frame_calm: "rnd_frame w w' \<Longrightarrow> calm w w'"
  by (auto simp: rnd_frame_def calm_def filter_empty_conv list_all_iff urandom_not_fs)

lemma random_filename_calm:
  assumes "random_filename_in_dir dn w p = (r, w')"
  shows "calm w w'"
proof -
  obtain x w1 where m1: "sys_simple SC_malloc w = (x, w1)" by (cases "sys_simple SC_malloc w")
  note c1 = calm_sys_simple[OF _ _ m1]
  show ?thesis
  proof (cases x)
    case (Fail e)
    with assms m1 c1 show ?thesis by (simp add: random_filename_in_dir_def)
  next
    case (Ok u)
    obtain n rndbuf w2 where fr: "fill_random w1 (replicate 16 (Stale 0)) 16 = (n, rndbuf, w2)"
      by (cases "fill_random w1 (replicate 16 (Stale 0)) 16")
    have c2: "calm w w2" using c1 rnd_frame_calm[OF fill_random_frame[OF fr]]
      by (auto intro: calm_trans)
    show ?thesis
    proof (cases "n = 16")
      case False
      with assms m1 Ok fr c2 show ?thesis by (simp add: random_filename_in_dir_def)
    next
      case True
      obtain y w3 where m2: "sys_simple SC_malloc w2 = (y, w3)" by (cases "sys_simple SC_malloc w2")
      have "calm w w3" using c2 calm_sys_simple[OF _ _ m2] by (auto intro: calm_trans)
      moreover from assms m1 Ok fr True m2 have "w' = w3"
        by (cases y) (simp_all add: random_filename_in_dir_def Let_def)
      ultimately show ?thesis by simp
    qed
  qed
qed

lemma fsync_dir_calm:
  assumes "fsync_dir dn verbose w d newname = (w', d')"
  shows "calm w w'"
proof -
  obtain x w1 where m1: "sys_simple SC_malloc w = (x, w1)" by (cases "sys_simple SC_malloc w")
  define dir where "dir = (case x of Ok u \<Rightarrow> dn newname | Fail e \<Rightarrow> ''.'')"
  obtain y w2 where od: "sys_simple SC_open_dir (emit (Ev_open dir [O_DIRECTORY, O_RDONLY]) w1) = (y, w2)"
    by (cases "sys_simple SC_open_dir (emit (Ev_open dir [O_DIRECTORY, O_RDONLY]) w1)")
  have c2: "calm w w2"
    using calm_sys_simple[OF _ _ m1] calm_emit[of "Ev_open dir [O_DIRECTORY, O_RDONLY]" w1]
      calm_sys_simple[OF _ _ od]
    by (auto intro: calm_trans)
  from assms m1 od have "w' = w2 \<or> w' = close_fd w2"
    by (auto simp: fsync_dir_def dir_def Let_def split: sysres.splits prod.splits)
  with c2 calm_close_fd[of w2] show ?thesis by (auto intro: calm_trans)
qed

lemma unlink_path_events:
  assumes "unlink_path verbose w p = (ok, w')"
  shows "\<exists>ev U. trace w' = trace w @ ev \<and> filter fs_event ev = Ev_unlink p # U \<and>
           (U = [] \<or> (\<exists>r. U = [Ev_sys SC_unlink r])) \<and>
           fs w' = (if ok then (fs w)(p := None) else fs w)"
  using assms
  by (auto simp: unlink_path_def sys_unlink_def sys_simple_def emit_def warn_def
      split: option.splits list.splits sysres.splits if_splits)

lemma sys_rename_events:
  assumes "sys_rename w old new = (x, w')"
  shows "\<exists>ev. trace w' = trace w @ ev \<and>
           (case x of
              Fail e \<Rightarrow>
                (\<exists>R. filter fs_event ev = Ev_rename old new # R \<and>
                   (R = [] \<or> (\<exists>e'. R = [Ev_sys SC_rename (Fail e')]))) \<and> fs w' = fs w
            | Ok u \<Rightarrow>
                filter fs_event ev = [Ev_rename old new, Ev_sys SC_rename (Ok ())] \<and>
                (\<exists>nd. fs w old = Some nd \<and>
                   fs w' = (if old = new then fs w else (fs w)(old := None, new \<mapsto> nd))))"
  using assms
  by (auto simp: sys_rename_def sys_simple_def emit_def
      split: option.splits list.splits sysres.splits if_splits)

text \<open>What \<open>rename_and_unlink\<close> calls, in order, and what it leaves: no new name; a
  rename that failed; a rename that succeeded.\<close>

lemma rename_and_unlink_cases:
  assumes "rename_and_unlink dn verbose w d path = (ok, w', d')"
  defines "F \<equiv> filter fs_event (new_events w w')"
  shows "(\<exists>U. fst (random_filename_in_dir dn w path) = None \<and> F = Ev_unlink path # U \<and>
            (U = [] \<or> (\<exists>r. U = [Ev_sys SC_unlink r])) \<and>
            fs w' = (if ok then (fs w)(path := None) else fs w)) \<or>
         (\<exists>nn R U. fst (random_filename_in_dir dn w path) = Some nn \<and>
            F = Ev_rename path nn # R @ Ev_unlink path # U \<and>
            (R = [] \<or> (\<exists>e. R = [Ev_sys SC_rename (Fail e)])) \<and>
            (U = [] \<or> (\<exists>r. U = [Ev_sys SC_unlink r])) \<and>
            fs w' = (if ok then (fs w)(path := None) else fs w)) \<or>
         (\<exists>nn U. fst (random_filename_in_dir dn w path) = Some nn \<and>
            F = Ev_rename path nn # Ev_sys SC_rename (Ok ()) # Ev_unlink nn # U \<and>
            (U = [] \<or> (\<exists>r. U = [Ev_sys SC_unlink r])) \<and>
            (ok \<longrightarrow> fs w' path = None \<and> fs w' nn = None) \<and>
            (\<forall>p. p \<noteq> path \<and> p \<noteq> nn \<longrightarrow> fs w' p = fs w p))"
proof -
  obtain r w1 where rf: "random_filename_in_dir dn w path = (r, w1)"
    by (cases "random_filename_in_dir dn w path")
  from random_filename_calm[OF rf] obtain ev1 where
    c1: "fs w1 = fs w" "trace w1 = trace w @ ev1" "filter fs_event ev1 = []"
    by (auto simp: calm_def)
  show ?thesis
  proof (cases r)
    case None
    obtain ok2 w2 where up: "unlink_path verbose w1 path = (ok2, w2)"
      by (cases "unlink_path verbose w1 path")
    from assms(1) rf None up have res: "ok = ok2" "w' = w2"
      by (simp_all add: rename_and_unlink_def)
    from unlink_path_events[OF up] obtain ev U where
      "trace w2 = trace w1 @ ev" "filter fs_event ev = Ev_unlink path # U"
      "U = [] \<or> (\<exists>r. U = [Ev_sys SC_unlink r])"
      "fs w2 = (if ok2 then (fs w1)(path := None) else fs w1)"
      by blast
    with c1 res rf None have "fst (random_filename_in_dir dn w path) = None \<and>
        F = Ev_unlink path # U \<and> (U = [] \<or> (\<exists>r. U = [Ev_sys SC_unlink r])) \<and>
        fs w' = (if ok then (fs w)(path := None) else fs w)"
      by (simp add: F_def new_events_def)
    then show ?thesis by blast
  next
    case (Some nn)
    obtain x w2 where sr: "sys_rename w1 path nn = (x, w2)" by (cases "sys_rename w1 path nn")
    from sys_rename_events[OF sr] obtain ev2 where
      tr2: "trace w2 = trace w1 @ ev2"
      and cs: "case x of
          Fail e \<Rightarrow>
            (\<exists>R. filter fs_event ev2 = Ev_rename path nn # R \<and>
               (R = [] \<or> (\<exists>e'. R = [Ev_sys SC_rename (Fail e')]))) \<and> fs w2 = fs w1
        | Ok u \<Rightarrow>
            filter fs_event ev2 = [Ev_rename path nn, Ev_sys SC_rename (Ok ())] \<and>
            (\<exists>nd. fs w1 path = Some nd \<and>
               fs w2 = (if path = nn then fs w1 else (fs w1)(path := None, nn \<mapsto> nd)))"
      by blast
    show ?thesis
    proof (cases x)
      case (Fail e)
      with cs obtain R where R: "filter fs_event ev2 = Ev_rename path nn # R"
        "R = [] \<or> (\<exists>e'. R = [Ev_sys SC_rename (Fail e')])" and fs2: "fs w2 = fs w1"
        by auto
      define w2' where "w2' = warn verbose (Perror ''rename'') w2"
      obtain ok3 w3 where up: "unlink_path verbose w2' path = (ok3, w3)"
        by (cases "unlink_path verbose w2' path")
      from assms(1) rf Some sr Fail up have res: "ok = ok3" "w' = w3"
        by (simp_all add: rename_and_unlink_def w2'_def)
      from calm_warn[of w2 verbose "Perror ''rename''"] obtain evw where
        cw: "fs w2' = fs w2" "trace w2' = trace w2 @ evw" "filter fs_event evw = []"
        by (auto simp: calm_def w2'_def)
      from unlink_path_events[OF up] obtain ev U where
        "trace w3 = trace w2' @ ev" "filter fs_event ev = Ev_unlink path # U"
        "U = [] \<or> (\<exists>r. U = [Ev_sys SC_unlink r])"
        "fs w3 = (if ok3 then (fs w2')(path := None) else fs w2')"
        by blast
      with c1 tr2 R fs2 cw res rf Some have "fst (random_filename_in_dir dn w path) = Some nn \<and>
          F = Ev_rename path nn # R @ Ev_unlink path # U \<and>
          (R = [] \<or> (\<exists>e. R = [Ev_sys SC_rename (Fail e)])) \<and>
          (U = [] \<or> (\<exists>r. U = [Ev_sys SC_unlink r])) \<and>
          fs w' = (if ok then (fs w)(path := None) else fs w)"
        by (simp add: F_def new_events_def)
      then show ?thesis by blast
    next
      case (Ok u)
      with cs obtain nd where R: "filter fs_event ev2 = [Ev_rename path nn, Ev_sys SC_rename (Ok ())]"
        and nd: "fs w1 path = Some nd"
        and fs2: "fs w2 = (if path = nn then fs w1 else (fs w1)(path := None, nn \<mapsto> nd))"
        by auto
      define w2' where "w2' = warn verbose (Msg_renamed path nn) w2"
      obtain w3 d1 where fd: "fsync_dir dn verbose w2' d nn = (w3, d1)"
        by (cases "fsync_dir dn verbose w2' d nn")
      obtain ok4 w4 where up: "unlink_path verbose w3 nn = (ok4, w4)"
        by (cases "unlink_path verbose w3 nn")
      from assms(1) rf Some sr Ok fd up have res: "ok = ok4" "w' = w4"
        by (simp_all add: rename_and_unlink_def w2'_def)
      have "calm w2 w3"
        using calm_warn[of w2 verbose "Msg_renamed path nn"] fsync_dir_calm[OF fd]
        by (auto simp: w2'_def intro: calm_trans)
      then obtain ev3 where
        c3: "fs w3 = fs w2" "trace w3 = trace w2 @ ev3" "filter fs_event ev3 = []"
        by (auto simp: calm_def)
      from unlink_path_events[OF up] obtain ev U where
        u: "trace w4 = trace w3 @ ev" "filter fs_event ev = Ev_unlink nn # U"
        "U = [] \<or> (\<exists>r. U = [Ev_sys SC_unlink r])"
        "fs w4 = (if ok4 then (fs w3)(nn := None) else fs w3)"
        by blast
      have "F = Ev_rename path nn # Ev_sys SC_rename (Ok ()) # Ev_unlink nn # U"
        using c1 tr2 R c3 u(1,2) res by (simp add: F_def new_events_def)
      moreover have "ok \<longrightarrow> fs w' path = None \<and> fs w' nn = None"
        using u(4) c3(1) fs2 c1(1) res by auto
      moreover have "\<forall>p. p \<noteq> path \<and> p \<noteq> nn \<longrightarrow> fs w' p = fs w p"
        using u(4) c3(1) fs2 c1(1) res by auto
      ultimately have "fst (random_filename_in_dir dn w path) = Some nn \<and>
          F = Ev_rename path nn # Ev_sys SC_rename (Ok ()) # Ev_unlink nn # U \<and>
          (U = [] \<or> (\<exists>r. U = [Ev_sys SC_unlink r])) \<and>
          (ok \<longrightarrow> fs w' path = None \<and> fs w' nn = None) \<and>
          (\<forall>p. p \<noteq> path \<and> p \<noteq> nn \<longrightarrow> fs w' p = fs w p)"
        using rf Some u(3) by simp
      then show ?thesis by blast
    qed
  qed
qed

lemma filter_unlink_fs: "filter is_unlink ev = filter is_unlink (filter fs_event ev)"
proof (induction ev)
  case Nil
  show ?case by simp
next
  case (Cons e ev)
  then show ?case by (cases e) auto
qed

lemma filter_rename_fs: "filter is_rename ev = filter is_rename (filter fs_event ev)"
proof (induction ev)
  case Nil
  show ?case by simp
next
  case (Cons e ev)
  then show ?case by (cases e) auto
qed

lemma mem_fs_event: "fs_event e \<Longrightarrow> e \<in> set ev \<longleftrightarrow> e \<in> set (filter fs_event ev)"
  by simp

text \<open>
  C7. When the sequence of \<^verbatim>\<open>main\<close> after the overwrite succeeds (it does not set
  \<open>exit_status\<close>), the original path does not exist, and neither does the random name the
  file was renamed to. Whenever no rename succeeded, because no random name could be made
  (then no rename is attempted at all) or because \<open>rename\<close> failed, the one \<open>unlink\<close> of
  the sequence is that of the original path, and the file system is what it was, less the
  original path where the \<open>unlink\<close> succeeded: no other path is created or removed.
\<close>

theorem rename_and_unlink_removes:
  assumes "rename_and_unlink dn verbose w d path = (ok, w', d')"
  shows "(ok \<longrightarrow> fs w' path = None \<and>
            (\<forall>nn. Ev_rename path nn \<in> set (new_events w w') \<and>
                  Ev_sys SC_rename (Ok ()) \<in> set (new_events w w') \<longrightarrow> fs w' nn = None)) \<and>
         (Ev_sys SC_rename (Ok ()) \<notin> set (new_events w w') \<longrightarrow>
            filter is_unlink (new_events w w') = [Ev_unlink path] \<and>
            fs w' = (if ok then (fs w)(path := None) else fs w)) \<and>
         (fst (random_filename_in_dir dn w path) = None \<longrightarrow>
            filter is_rename (new_events w w') = [] \<and>
            Ev_sys SC_rename (Ok ()) \<notin> set (new_events w w'))"
proof -
  define F where "F = filter fs_event (new_events w w')"
  have un: "filter is_unlink (new_events w w') = filter is_unlink F"
    and rn: "filter is_rename (new_events w w') = filter is_rename F"
    unfolding F_def by (rule filter_unlink_fs, rule filter_rename_fs)
  have ok_in: "Ev_sys SC_rename (Ok ()) \<in> set (new_events w w') \<longleftrightarrow> Ev_sys SC_rename (Ok ()) \<in> set F"
    unfolding F_def by (rule mem_fs_event) simp
  have rn_in: "Ev_rename path nn \<in> set (new_events w w') \<longleftrightarrow> Ev_rename path nn \<in> set F" for nn
    unfolding F_def by (rule mem_fs_event) simp
  from rename_and_unlink_cases[OF assms] consider
    (noname) U where "fst (random_filename_in_dir dn w path) = None" "F = Ev_unlink path # U"
      "U = [] \<or> (\<exists>r. U = [Ev_sys SC_unlink r])"
      "fs w' = (if ok then (fs w)(path := None) else fs w)"
  | (failed) nn R U where "fst (random_filename_in_dir dn w path) = Some nn"
      "F = Ev_rename path nn # R @ Ev_unlink path # U"
      "R = [] \<or> (\<exists>e. R = [Ev_sys SC_rename (Fail e)])"
      "U = [] \<or> (\<exists>r. U = [Ev_sys SC_unlink r])"
      "fs w' = (if ok then (fs w)(path := None) else fs w)"
  | (renamed) nn U where "fst (random_filename_in_dir dn w path) = Some nn"
      "F = Ev_rename path nn # Ev_sys SC_rename (Ok ()) # Ev_unlink nn # U"
      "U = [] \<or> (\<exists>r. U = [Ev_sys SC_unlink r])"
      "ok \<longrightarrow> fs w' path = None \<and> fs w' nn = None"
    unfolding F_def by blast
  then show ?thesis
  proof cases
    case noname
    then show ?thesis unfolding un rn ok_in rn_in by auto
  next
    case failed
    then show ?thesis unfolding un rn ok_in rn_in by auto
  next
    case renamed
    then show ?thesis unfolding un rn ok_in rn_in by auto
  qed
qed

lemma run_remove_facts:
  "fst run_remove = True"
  "filter fs_event (new_events (proc_world run_file) (fst (snd run_remove))) =
     [Ev_rename ''/tmp/l'' ''/tmp/0001020304050607'', Ev_sys SC_rename (Ok ()),
      Ev_unlink ''/tmp/0001020304050607'', Ev_sys SC_unlink (Ok ())]"
  "fs (fst (snd run_remove)) ''/tmp/a'' = Some (Reg [Zeroed, Zeroed, Zeroed])"
  by code_simp+

lemma run_fallback_facts:
  "fst run_fallback = True"
  "filter fs_event (new_events w_norename (fst (snd run_fallback))) =
     [Ev_rename ''/tmp/a'' ''/tmp/0102030405060708'', Ev_sys SC_rename (Fail EXDEV),
      Ev_unlink ''/tmp/a'', Ev_sys SC_unlink (Ok ())]"
  "fs w_norename ''/tmp/0102030405060708'' = None"
  by code_simp+

theorem rename_and_unlink_removes_witness:
  "fst run_remove = True \<and>
   fs (fst (snd run_remove)) ''/tmp/l'' = None \<and>
   fs (fst (snd run_remove)) ''/tmp/0001020304050607'' = None \<and>
   fst run_fallback = True \<and>
   filter is_unlink (new_events w_norename (fst (snd run_fallback))) = [Ev_unlink ''/tmp/a''] \<and>
   fs (fst (snd run_fallback)) = (fs w_norename)(''/tmp/a'' := None) \<and>
   fs (fst (snd run_fallback)) ''/tmp/0102030405060708'' = None"
proof -
  have r1: "rename_and_unlink dirname_glibc True (proc_world run_file) (proc_durability run_file) ''/tmp/l'' =
      (True, fst (snd run_remove), snd (snd run_remove))"
    using run_remove_facts(1) by (simp add: run_remove_def prod_eq_iff)
  have r2: "rename_and_unlink dirname_glibc False w_norename d_dead ''/tmp/a'' =
      (True, fst (snd run_fallback), snd (snd run_fallback))"
    using run_fallback_facts(1) by (simp add: run_fallback_def prod_eq_iff)
  have in1: "Ev_rename ''/tmp/l'' ''/tmp/0001020304050607'' \<in> set (filter fs_event (new_events (proc_world run_file) (fst (snd run_remove))))"
    "Ev_sys SC_rename (Ok ()) \<in> set (filter fs_event (new_events (proc_world run_file) (fst (snd run_remove))))"
    unfolding run_remove_facts(2) by simp_all
  then have in1': "Ev_rename ''/tmp/l'' ''/tmp/0001020304050607'' \<in> set (new_events (proc_world run_file) (fst (snd run_remove)))"
    "Ev_sys SC_rename (Ok ()) \<in> set (new_events (proc_world run_file) (fst (snd run_remove)))"
    by simp_all
  have "Ev_sys SC_rename (Ok ()) \<notin> set (filter fs_event (new_events w_norename (fst (snd run_fallback))))"
    unfolding run_fallback_facts(2) by simp
  then have out2: "Ev_sys SC_rename (Ok ()) \<notin> set (new_events w_norename (fst (snd run_fallback)))"
    by simp
  from rename_and_unlink_removes[OF r1] in1'
  have a: "fs (fst (snd run_remove)) ''/tmp/l'' = None"
    "fs (fst (snd run_remove)) ''/tmp/0001020304050607'' = None"
    by auto
  from rename_and_unlink_removes[OF r2] out2
  have b: "filter is_unlink (new_events w_norename (fst (snd run_fallback))) = [Ev_unlink ''/tmp/a'']"
    "fs (fst (snd run_fallback)) = (fs w_norename)(''/tmp/a'' := None)"
    by auto
  from b(2) run_fallback_facts(3) have "fs (fst (snd run_fallback)) ''/tmp/0102030405060708'' = None"
    by simp
  with a b run_remove_facts(1) run_fallback_facts(1) show ?thesis by simp
qed

section \<open>The files that are attempted\<close>

lemma engine_not_stat: "engine_event L e \<Longrightarrow> \<not> is_stat e"
  by (cases e) auto

lemma engine_events_not_stat: "list_all (engine_event L) ev \<Longrightarrow> filter is_stat ev = []"
  by (induction ev) (auto simp: engine_not_stat)

lemma overwrite_not_regular:
  assumes "\<forall>rp c. \<not> names_regular w path rp c"
  shows "\<exists>m. overwrite_file w d path passes final_zero verbose =
           Return (- 1) (warn verbose m (emit (Ev_stat path) w)) d"
proof -
  from stat_not_regular[OF assms] consider
    (fail) e where "sys_stat w path = (Fail e, emit (Ev_stat path) w)"
  | (other) st where "sys_stat w path = (Ok st, emit (Ev_stat path) w)" "st_mode st \<noteq> S_IFREG"
    by blast
  then show ?thesis by cases (auto simp: overwrite_file_def)
qed

lemma overwrite_file_stat:
  "\<exists>ev. trace (proc_world (overwrite_file w d path passes final_zero verbose)) = trace w @ ev \<and>
        filter is_stat ev = [Ev_stat path]"
proof (cases "\<exists>rp c. names_regular w path rp c")
  case True
  then obtain rp c where reg: "names_regular w path rp c" by blast
  from overwrite_file_shape[OF reg refl, of d passes final_zero verbose] consider
    (closed) w' e where "overwrite_file w d path passes final_zero verbose = Return (- 1) w' d"
      "trace w' = trace w @ [Ev_stat path, Ev_open path [O_WRONLY], Ev_sys SC_open (Fail e)] @
         (if verbose then [Stderr (Perror ''open'')] else [])"
  | (opened) ev where "overwrite_shape (length c) path rp w
      (proc_world (overwrite_file w d path passes final_zero verbose)) ev"
    by blast
  then show ?thesis
  proof cases
    case closed
    then show ?thesis by simp
  next
    case opened
    then show ?thesis by (auto simp: overwrite_shape_def engine_events_not_stat)
  qed
next
  case False
  then have "\<forall>rp c. \<not> names_regular w path rp c" by blast
  from overwrite_not_regular[OF this, of d passes final_zero verbose] show ?thesis
    by (auto simp: warn_def emit_def)
qed

lemma stat_free_refl: "stat_free w w"
  by (simp add: stat_free_def)

lemma stat_free_trans: "stat_free w w1 \<Longrightarrow> stat_free w1 w2 \<Longrightarrow> stat_free w w2"
  by (auto simp: stat_free_def)

lemma calm_stat_free: "calm w w' \<Longrightarrow> stat_free w w'"
  by (auto simp: calm_def stat_free_def)

lemma sys_rename_stat_free: "sys_rename w old new = (x, w') \<Longrightarrow> stat_free w w'"
  by (auto simp: sys_rename_def sys_simple_def emit_def stat_free_def
      split: option.splits list.splits sysres.splits if_splits)

lemma unlink_path_stat_free: "unlink_path verbose w p = (ok, w') \<Longrightarrow> stat_free w w'"
  by (auto simp: unlink_path_def sys_unlink_def sys_simple_def emit_def warn_def stat_free_def
      split: option.splits list.splits sysres.splits if_splits)

lemma rename_and_unlink_stat_free:
  assumes "rename_and_unlink dn verbose w d path = (ok, w', d')"
  shows "stat_free w w'"
proof -
  obtain r w1 where rf: "random_filename_in_dir dn w path = (r, w1)"
    by (cases "random_filename_in_dir dn w path")
  note s1 = calm_stat_free[OF random_filename_calm[OF rf]]
  show ?thesis
  proof (cases r)
    case None
    obtain ok2 w2 where up: "unlink_path verbose w1 path = (ok2, w2)"
      by (cases "unlink_path verbose w1 path")
    from assms rf None up have "w' = w2" by (simp add: rename_and_unlink_def)
    with s1 unlink_path_stat_free[OF up] show ?thesis by (auto intro: stat_free_trans)
  next
    case (Some nn)
    obtain x w2 where sr: "sys_rename w1 path nn = (x, w2)" by (cases "sys_rename w1 path nn")
    note s2 = stat_free_trans[OF s1 sys_rename_stat_free[OF sr]]
    show ?thesis
    proof (cases x)
      case (Fail e)
      obtain ok3 w3 where up: "unlink_path verbose (warn verbose (Perror ''rename'') w2) path = (ok3, w3)"
        by (cases "unlink_path verbose (warn verbose (Perror ''rename'') w2) path")
      from assms rf Some sr Fail up have "w' = w3" by (simp add: rename_and_unlink_def)
      with s2 calm_stat_free[OF calm_warn[of w2 verbose "Perror ''rename''"]]
        unlink_path_stat_free[OF up]
      show ?thesis by (auto intro: stat_free_trans)
    next
      case (Ok u)
      obtain w3 d1 where fd: "fsync_dir dn verbose (warn verbose (Msg_renamed path nn) w2) d nn = (w3, d1)"
        by (cases "fsync_dir dn verbose (warn verbose (Msg_renamed path nn) w2) d nn")
      obtain ok4 w4 where up: "unlink_path verbose w3 nn = (ok4, w4)"
        by (cases "unlink_path verbose w3 nn")
      from assms rf Some sr Ok fd up have "w' = w4" by (simp add: rename_and_unlink_def)
      with s2 calm_stat_free[OF calm_warn[of w2 verbose "Msg_renamed path nn"]]
        calm_stat_free[OF fsync_dir_calm[OF fd]] unlink_path_stat_free[OF up]
      show ?thesis by (auto intro: stat_free_trans)
    qed
  qed
qed

lemma process_file_stat:
  "\<exists>ev. trace (proc_world (process_file dn passes final_zero verbose w d path)) = trace w @ ev \<and>
        filter is_stat ev = [Ev_stat path]"
proof -
  define w0 where "w0 = warn verbose (Msg_processing path) w"
  have "stat_free w w0"
    unfolding w0_def by (rule calm_stat_free[OF calm_warn])
  then obtain ev0 where ev0: "trace w0 = trace w @ ev0" "filter is_stat ev0 = []"
    by (auto simp: stat_free_def)
  from overwrite_file_stat[of w0 d path passes final_zero verbose] obtain ev1 where
    ev1: "trace (proc_world (overwrite_file w0 d path passes final_zero verbose)) = trace w0 @ ev1"
      "filter is_stat ev1 = [Ev_stat path]"
    by blast
  show ?thesis
  proof (cases "overwrite_file w0 d path passes final_zero verbose")
    case (Exit status w1 d1)
    with ev0 ev1 show ?thesis by (simp add: process_file_def w0_def)
  next
    case (Return r w1 d1)
    show ?thesis
    proof (cases "r = 0")
      case False
      with Return ev0 ev1 show ?thesis by (simp add: process_file_def w0_def emit_def)
    next
      case True
      obtain ok w2 d2 where ru: "rename_and_unlink dn verbose w1 d1 path = (ok, w2, d2)"
        by (cases "rename_and_unlink dn verbose w1 d1 path")
      from rename_and_unlink_stat_free[OF ru] obtain ev2 where
        "trace w2 = trace w1 @ ev2" "filter is_stat ev2 = []"
        by (auto simp: stat_free_def)
      with True Return ru ev0 ev1 show ?thesis by (simp add: process_file_def w0_def)
    qed
  qed
qed

lemma main_loop_stat:
  "returned (main_loop dn passes final_zero verbose w d paths st) \<noteq> None \<Longrightarrow>
   \<exists>ev. trace (proc_world (main_loop dn passes final_zero verbose w d paths st)) = trace w @ ev \<and>
        filter is_stat ev = map Ev_stat paths"
proof (induction paths arbitrary: w d st)
  case Nil
  show ?case by simp
next
  case (Cons path paths)
  from process_file_stat[of dn passes final_zero verbose w d path] obtain ev1 where
    ev1: "trace (proc_world (process_file dn passes final_zero verbose w d path)) = trace w @ ev1"
      "filter is_stat ev1 = [Ev_stat path]"
    by blast
  show ?case
  proof (cases "process_file dn passes final_zero verbose w d path")
    case (Exit status w1 d1)
    with Cons.prems show ?thesis by simp
  next
    case (Return ok w1 d1)
    with Cons.prems have
      "returned (main_loop dn passes final_zero verbose w1 d1 paths (if ok then st else 2)) \<noteq> None"
      by simp
    from Cons.IH[OF this] obtain ev2 where
      "trace (proc_world (main_loop dn passes final_zero verbose w1 d1 paths (if ok then st else 2))) =
         trace w1 @ ev2" "filter is_stat ev2 = map Ev_stat paths"
      by blast
    with Return ev1 show ?thesis by simp
  qed
qed

section \<open>The exit status\<close>

lemma alloc_buf_status: "alloc_buf w n = Inl (status, w') \<Longrightarrow> status = 2"
  by (auto simp: alloc_buf_def split: prod.splits sysres.splits)

lemma overwrite_file_exit:
  assumes "overwrite_file w d path passes final_zero verbose = Exit status w' d'"
  shows "status = 2"
proof -
  obtain x w1 where st: "sys_stat w path = (x, w1)" by (cases "sys_stat w path")
  show ?thesis
  proof (cases x)
    case (Fail e)
    with st assms show ?thesis by (simp add: overwrite_file_def)
  next
    case (Ok s)
    show ?thesis
    proof (cases "st_mode s \<noteq> S_IFREG")
      case True
      with st Ok assms show ?thesis by (simp add: overwrite_file_def)
    next
      case reg: False
      obtain y w2 where so: "sys_open w1 path [O_WRONLY] = (y, w2)"
        by (cases "sys_open w1 path [O_WRONLY]")
      show ?thesis
      proof (cases y)
        case (Fail e)
        with st Ok reg so assms show ?thesis by (simp add: overwrite_file_def)
      next
        case fd: (Ok fd)
        show ?thesis
        proof (cases "alloc_buf w2 (bufsize_of (st_size s))")
          case (Inl a)
          obtain s2 w3 where a: "a = (s2, w3)" by (cases a)
          from alloc_buf_status[OF Inl[unfolded a]] st Ok reg so fd Inl a assms
          show ?thesis by (simp add: overwrite_file_def)
        next
          case (Inr b)
          with st Ok reg so fd assms show ?thesis
            by (auto simp: overwrite_file_def Let_def split: prod.splits if_splits sysres.splits)
        qed
      qed
    qed
  qed
qed

lemma process_file_exit:
  "process_file dn passes final_zero verbose w d path = Exit status w' d' \<Longrightarrow> status = 2"
  by (auto simp: process_file_def dest: overwrite_file_exit split: proc.splits if_splits prod.splits)

lemma main_loop_status:
  "case main_loop dn passes final_zero verbose w d paths st of
     Exit status w' d' \<Rightarrow>
       status = 2 \<and> length (file_results dn passes final_zero verbose w d paths) < length paths
   | Return status w' d' \<Rightarrow>
       length (file_results dn passes final_zero verbose w d paths) = length paths \<and>
       status = (if list_all id (file_results dn passes final_zero verbose w d paths) then st else 2)"
proof (induction paths arbitrary: w d st)
  case Nil
  show ?case by simp
next
  case (Cons path paths)
  show ?case
  proof (cases "process_file dn passes final_zero verbose w d path")
    case (Exit status w1 d1)
    with process_file_exit[OF Exit] show ?thesis by simp
  next
    case (Return ok w1 d1)
    from Cons.IH[of w1 d1 "if ok then st else 2"] Return show ?thesis
      by (cases "main_loop dn passes final_zero verbose w1 d1 paths (if ok then st else 2)") auto
  qed
qed

text \<open>
  C3, as amended. The process ends with status 0 or 2. When \<^verbatim>\<open>main\<close> returns, every file
  was attempted, in order, whatever happened to the files before it (each has its outcome,
  and the calls of \<open>stat\<close> in the log are those of the files, one each, in order), and
  the status is 0 if every file was overwritten and removed without error and 2 if any
  was not. The
  process ends early only by the \<^verbatim>\<open>exit(2)\<close> of \<^verbatim>\<open>alloc_buf\<close>, with the same
  status 2, the files after the current one not attempted.
\<close>

theorem exit_status_contract:
  "(exit_code (main_loop dn passes final_zero verbose w d paths 0) = 0 \<or>
    exit_code (main_loop dn passes final_zero verbose w d paths 0) = 2) \<and>
   (case returned (main_loop dn passes final_zero verbose w d paths 0) of
      Some status \<Rightarrow>
        length (file_results dn passes final_zero verbose w d paths) = length paths \<and>
        status = (if list_all id (file_results dn passes final_zero verbose w d paths) then 0 else 2) \<and>
        filter is_stat (new_events w (proc_world (main_loop dn passes final_zero verbose w d paths 0))) =
          map Ev_stat paths
    | None \<Rightarrow>
        exit_code (main_loop dn passes final_zero verbose w d paths 0) = 2 \<and>
        length (file_results dn passes final_zero verbose w d paths) < length paths)"
proof (cases "main_loop dn passes final_zero verbose w d paths 0")
  case (Exit status w' d')
  with main_loop_status[of dn passes final_zero verbose w d paths 0] show ?thesis by simp
next
  case (Return status w' d')
  then have "returned (main_loop dn passes final_zero verbose w d paths 0) \<noteq> None" by simp
  from main_loop_stat[OF this] have
    "filter is_stat (new_events w (proc_world (main_loop dn passes final_zero verbose w d paths 0))) =
       map Ev_stat paths"
    by (auto simp: new_events_def)
  with Return main_loop_status[of dn passes final_zero verbose w d paths 0] show ?thesis by auto
qed

lemma run_main_facts:
  "returned run_main = Some 2"
  "file_results dirname_glibc 2 True False w_file d_flaky [''/tmp/l'', ''/tmp/x''] = [True, False]"
  "fs (proc_world run_main) ''/tmp/l'' = None"
  "filter is_unlink (trace (proc_world run_main)) = [Ev_unlink ''/tmp/0001020304050607'']"
  "filter is_stat (new_events w_file (proc_world run_main)) = [Ev_stat ''/tmp/l'', Ev_stat ''/tmp/x'']"
  by code_simp+

lemma run_main_dir_facts:
  "returned run_main_dir = Some 2" "exit_code run_main_dir = 2"
  by code_simp+

lemma run_main_nomem_facts:
  "returned run_main_nomem = None" "exit_code run_main_nomem = 2"
  "file_results dirname_glibc 2 True False w_nomem d_flaky [''/tmp/a'', ''/tmp/d''] = []"
  by code_simp+

theorem exit_status_contract_witness:
  "returned run_main = Some 2 \<and>
   file_results dirname_glibc 2 True False w_file d_flaky [''/tmp/l'', ''/tmp/x''] = [True, False] \<and>
   (exit_code run_main = 0 \<or> exit_code run_main = 2) \<and>
   filter is_stat (new_events w_file (proc_world run_main)) = [Ev_stat ''/tmp/l'', Ev_stat ''/tmp/x''] \<and>
   returned run_main_nomem = None \<and> exit_code run_main_nomem = 2"
proof -
  note t1 = exit_status_contract[of dirname_glibc 2 True False w_file d_flaky
      "[''/tmp/l'', ''/tmp/x'']", folded run_main_def]
  note t2 = exit_status_contract[of dirname_glibc 2 True False w_nomem d_flaky
      "[''/tmp/a'', ''/tmp/d'']", folded run_main_nomem_def]
  from t1 have a: "exit_code run_main = 0 \<or> exit_code run_main = 2" by blast
  from t2 have "case returned run_main_nomem of
      Some status \<Rightarrow> True | None \<Rightarrow> exit_code run_main_nomem = 2"
    by (auto split: option.splits)
  with run_main_nomem_facts(1) have b: "exit_code run_main_nomem = 2" by simp
  from a b run_main_facts(1,2,5) run_main_nomem_facts(1) show ?thesis by blast
qed

text \<open>The specification has the status of a file that failed distinct from the status of
  the abort on allocation failure. A directory among the files makes \<^verbatim>\<open>main\<close> return 2,
  and the abort in \<^verbatim>\<open>alloc_buf\<close> exits with 2.\<close>

theorem exit_status_not_distinct:
  "returned run_main_dir = Some 2 \<and> returned run_main_nomem = None \<and>
   exit_code run_main_dir = 2 \<and> exit_code run_main_nomem = 2 \<and>
   exit_code run_main_dir = exit_code run_main_nomem"
  using run_main_dir_facts run_main_nomem_facts by simp

end
